theory Spec2Isabelle
  imports Main
begin

section \<open>The filter tree of usdb\_syncer (gui/search\_tree/item.py)\<close>

subsection \<open>Songs\<close>

text \<open>
  \<open>UsdbSong\<close> (usdb\_song.py) is a frozen attrs class. Python's unbounded \<open>int\<close> is
  \<open>int\<close>; \<open>SongId\<close> is a wrapper around a number.
\<close>

record UsdbSong =
  song_id :: int
  artist :: string
  title :: string
  language :: string
  edition :: string
  golden_notes :: bool
  rating :: int
  views :: int

text \<open>
  Modelled from the spec: the class \<open>SongData\<close> (module \<open>usdb_syncer.song_data\<close>) is
  imported by item.py but its declaration is not part of the sources at hand. The
  predicates only read \<open>song.data.<field>\<close>, so the model keeps the one attribute
  \<open>data\<close>, holding the \<open>UsdbSong\<close> with the fields the spec lists for a song record.
\<close>

record SongData =
  data :: UsdbSong

subsection \<open>Exceptions\<close>

datatype py_exception = IndexError | AttributeError | NotImplementedError

subsection \<open>Predicates on songs\<close>

datatype RatingVariant = R_NONE | R_1 | R_2 | R_3 | R_4 | R_5

text \<open>The enum values; \<open>R_NONE = None\<close> in the source, the others are integers.\<close>

fun RatingVariant_value :: "RatingVariant \<Rightarrow> int option" where
  "RatingVariant_value R_NONE = None"
| "RatingVariant_value R_1 = Some 1"
| "RatingVariant_value R_2 = Some 2"
| "RatingVariant_value R_3 = Some 3"
| "RatingVariant_value R_4 = Some 4"
| "RatingVariant_value R_5 = Some 5"

datatype GoldenNotesVariant = NO | YES

fun GoldenNotesVariant_value :: "GoldenNotesVariant \<Rightarrow> bool" where
  "GoldenNotesVariant_value NO = False"
| "GoldenNotesVariant_value YES = True"

datatype ViewsVariant = V_0 | V_100 | V_200 | V_300 | V_400 | V_500

fun ViewsVariant_value :: "ViewsVariant \<Rightarrow> int \<times> int option" where
  "ViewsVariant_value V_0 = (0, Some 100)"
| "ViewsVariant_value V_100 = (100, Some 200)"
| "ViewsVariant_value V_200 = (200, Some 300)"
| "ViewsVariant_value V_300 = (300, Some 400)"
| "ViewsVariant_value V_400 = (400, Some 500)"
| "ViewsVariant_value V_500 = (500, None)"

text \<open>
  \<open>self.value == song.data.rating\<close>: the right-hand side is an \<open>int\<close>, and Python's
  \<open>None == n\<close> is \<open>False\<close> for every integer \<open>n\<close>.
\<close>

definition RatingVariant_matches_song :: "RatingVariant \<Rightarrow> SongData \<Rightarrow> bool" where
  "RatingVariant_matches_song r song \<longleftrightarrow> RatingVariant_value r = Some (rating (SongData.data song))"

text \<open>\<open>self.value is song.data.golden_notes\<close>: identity of the two boolean singletons.\<close>

definition GoldenNotesVariant_matches_song :: "GoldenNotesVariant \<Rightarrow> SongData \<Rightarrow> bool" where
  "GoldenNotesVariant_matches_song g song \<longleftrightarrow>
     GoldenNotesVariant_value g = golden_notes (SongData.data song)"

definition ViewsVariant_matches_song :: "ViewsVariant \<Rightarrow> SongData \<Rightarrow> bool" where
  "ViewsVariant_matches_song v song \<longleftrightarrow>
     fst (ViewsVariant_value v) \<le> views (SongData.data song) \<and>
     (case snd (ViewsVariant_value v) of
        None \<Rightarrow> True
      | Some hi \<Rightarrow> views (SongData.data song) < hi)"

text \<open>
  The classes that implement the interface \<open>SongMatch\<close>. The interface itself can be
  instantiated in Python; its \<open>matches_song\<close> raises \<open>NotImplementedError\<close>.
\<close>

datatype SongMatch =
    SongMatch_interface
  | SongArtistMatch string
  | SongTitleMatch string
  | SongEditionMatch string
  | SongLanguageMatch string
  | Rating RatingVariant
  | GoldenNotes GoldenNotesVariant
  | Views ViewsVariant

fun matches_song :: "SongMatch \<Rightarrow> SongData \<Rightarrow> py_exception + bool" where
  "matches_song SongMatch_interface song = Inl NotImplementedError"
| "matches_song (SongArtistMatch s) song = Inr (s = artist (SongData.data song))"
| "matches_song (SongTitleMatch s) song = Inr (s = title (SongData.data song))"
| "matches_song (SongEditionMatch s) song = Inr (s = edition (SongData.data song))"
| "matches_song (SongLanguageMatch s) song = Inr (s = language (SongData.data song))"
| "matches_song (Rating r) song = Inr (RatingVariant_matches_song r song)"
| "matches_song (GoldenNotes g) song = Inr (GoldenNotesVariant_matches_song g song)"
| "matches_song (Views v) song = Inr (ViewsVariant_matches_song v song)"

datatype Filter = ARTIST | TITLE | EDITION | LANGUAGE | GOLDEN_NOTES | RATING | VIEWS

text \<open>Iterating over an enum class yields its members in the order of their definition.\<close>

fun static_variants :: "Filter \<Rightarrow> SongMatch list" where
  "static_variants ARTIST = []"
| "static_variants TITLE = []"
| "static_variants EDITION = []"
| "static_variants LANGUAGE = []"
| "static_variants GOLDEN_NOTES = map GoldenNotes [NO, YES]"
| "static_variants RATING = map Rating [R_NONE, R_1, R_2, R_3, R_4, R_5]"
| "static_variants VIEWS = map Views [V_0, V_100, V_200, V_300, V_400, V_500]"

subsection \<open>Tree items\<close>

text \<open>
  The tree is built from objects that refer to each other (a child knows its parent, a
  parent holds the tuple of its children), and the toggles mutate parent and children
  through these references. The model is an explicit store: an address is a position in
  the list of all objects allocated so far. The three classes share the attributes of
  \<open>TreeItem\<close>; \<open>checked_children\<close> exists on a \<open>FilterItem\<close> only and is left
  empty on the other two classes. A Python reference always leads to an object; the
  theorems below are about stores in which every stored address is allocated
  (\<open>tree_wf\<close>).
\<close>

type_synonym addr = nat

datatype item_class = RootItem | FilterItem | VariantItem

datatype item_data = NoData | FilterData Filter | MatchData SongMatch

record TreeItem =
  cls :: item_class
  data :: item_data
  parent :: "addr option"
  row_in_parent :: int
  children :: "addr list"
  checked :: bool
  checkable :: bool
  checked_children :: "int set"

type_synonym heap = "TreeItem list"

text \<open>Assignment to attributes of the object at an address.\<close>

definition upd :: "heap \<Rightarrow> addr \<Rightarrow> (TreeItem \<Rightarrow> TreeItem) \<Rightarrow> heap" where
  "upd h a g = h[a := g (h ! a)]"

text \<open>The constructors generated by attrs: every field with \<open>init=False\<close> takes its default.\<close>

definition new_RootItem :: TreeItem where
  "new_RootItem = \<lparr>cls = RootItem, data = NoData, parent = None, row_in_parent = 0,
     children = [], checked = False, checkable = False, checked_children = {}\<rparr>"

definition new_FilterItem :: "Filter \<Rightarrow> addr \<Rightarrow> TreeItem" where
  "new_FilterItem k p = \<lparr>cls = FilterItem, data = FilterData k, parent = Some p,
     row_in_parent = 0, children = [], checked = False, checkable = False,
     checked_children = {}\<rparr>"

definition new_VariantItem :: "SongMatch \<Rightarrow> addr \<Rightarrow> TreeItem" where
  "new_VariantItem m p = \<lparr>cls = VariantItem, data = MatchData m, parent = Some p,
     row_in_parent = 0, children = [], checked = False, checkable = True,
     checked_children = {}\<rparr>"

definition alloc :: "heap \<Rightarrow> TreeItem \<Rightarrow> addr \<times> heap" where
  "alloc h obj = (length h, h @ [obj])"

definition RootItem_add_child :: "heap \<Rightarrow> addr \<Rightarrow> addr \<Rightarrow> heap" where
  "RootItem_add_child h self child =
     (let h1 = upd h child (\<lambda>c. c\<lparr>parent := Some self\<rparr>);
          h2 = upd h1 child (\<lambda>c. c\<lparr>row_in_parent := int (length (children (h1 ! self)))\<rparr>)
      in upd h2 self (\<lambda>s. s\<lparr>children := children s @ [child]\<rparr>))"

definition FilterItem_add_child :: "heap \<Rightarrow> addr \<Rightarrow> addr \<Rightarrow> heap" where
  "FilterItem_add_child h self child =
     (let h1 = upd h child (\<lambda>c. c\<lparr>parent := Some self\<rparr>);
          h2 = upd h1 child (\<lambda>c. c\<lparr>row_in_parent := int (length (children (h1 ! self)))\<rparr>)
      in upd h2 self (\<lambda>s. s\<lparr>children := children s @ [child]\<rparr>))"

text \<open>
  Subscripting a tuple with a Python integer: a negative index counts from the end, an
  index outside the tuple raises \<open>IndexError\<close>.
\<close>

definition tuple_getitem :: "'a list \<Rightarrow> int \<Rightarrow> py_exception + 'a" where
  "tuple_getitem xs i =
     (if 0 \<le> i \<and> i < int (length xs) then Inr (xs ! nat i)
      else if i < 0 \<and> - int (length xs) \<le> i then Inr (xs ! nat (int (length xs) + i))
      else Inl IndexError)"

subsection \<open>Accepting a song\<close>

definition VariantItem_accepts_song :: "heap \<Rightarrow> addr \<Rightarrow> SongData \<Rightarrow> py_exception + bool" where
  "VariantItem_accepts_song h self song =
     (case data (h ! self) of
        MatchData m \<Rightarrow> matches_song m song
      | _ \<Rightarrow> Inl AttributeError)"

text \<open>
  \<open>any(self.children[i].accepts_song(song) for i in self.checked_children)\<close>: the
  generator is consumed index by index and stops at the first child that accepts; an
  exception raised on the way ends the call. \<open>children\<close> is declared as a tuple of
  \<open>VariantItem\<close>, so the method called on the subscripted object is the one of
  \<open>VariantItem\<close>; data that is no \<open>SongMatch\<close> has no \<open>matches_song\<close>.
\<close>

fun any_accepts_song :: "heap \<Rightarrow> addr list \<Rightarrow> SongData \<Rightarrow> int list \<Rightarrow> py_exception + bool" where
  "any_accepts_song h cs song [] = Inr False"
| "any_accepts_song h cs song (i # is) =
     (case tuple_getitem cs i of
        Inl e \<Rightarrow> Inl e
      | Inr c \<Rightarrow>
          (case VariantItem_accepts_song h c song of
             Inl e \<Rightarrow> Inl e
           | Inr b \<Rightarrow> if b then Inr True else any_accepts_song h cs song is))"

text \<open>
  The order in which Python iterates over a \<open>set\<close> of integers is an implementation
  detail; the model takes the ascending order. No state that the toggles reach holds
  more than one index.
\<close>

definition FilterItem_accepts_song :: "heap \<Rightarrow> addr \<Rightarrow> SongData \<Rightarrow> py_exception + bool" where
  "FilterItem_accepts_song h self song =
     (if checked_children (h ! self) = {} then Inr True
      else any_accepts_song h (children (h ! self)) song
             (sorted_list_of_set (checked_children (h ! self))))"

text \<open>
  The same methods once more with the store threaded through every call and returned
  together with the answer, the form in which an assignment anywhere in their bodies
  would show: a call receives the store its predecessor left and hands on the one it
  leaves, also when it ends with an exception. \<open>self.children\<close> is read from the store
  of the moment in every round of the generator. The predicates of \<open>SongMatch\<close> are
  methods of objects outside the tree and read the song only.
\<close>

definition matches_song_st ::
    "heap \<Rightarrow> SongMatch \<Rightarrow> SongData \<Rightarrow> (py_exception + bool) \<times> heap" where
  "matches_song_st h m song = (matches_song m song, h)"

definition VariantItem_accepts_song_st ::
    "heap \<Rightarrow> addr \<Rightarrow> SongData \<Rightarrow> (py_exception + bool) \<times> heap" where
  "VariantItem_accepts_song_st h self song =
     (case data (h ! self) of
        MatchData m \<Rightarrow> matches_song_st h m song
      | _ \<Rightarrow> (Inl AttributeError, h))"

fun any_accepts_song_st ::
    "heap \<Rightarrow> addr \<Rightarrow> SongData \<Rightarrow> int list \<Rightarrow> (py_exception + bool) \<times> heap" where
  "any_accepts_song_st h self song [] = (Inr False, h)"
| "any_accepts_song_st h self song (i # is) =
     (case tuple_getitem (children (h ! self)) i of
        Inl e \<Rightarrow> (Inl e, h)
      | Inr c \<Rightarrow>
          (case VariantItem_accepts_song_st h c song of
             (Inl e, h1) \<Rightarrow> (Inl e, h1)
           | (Inr b, h1) \<Rightarrow>
               if b then (Inr True, h1) else any_accepts_song_st h1 self song is))"

definition FilterItem_accepts_song_st ::
    "heap \<Rightarrow> addr \<Rightarrow> SongData \<Rightarrow> (py_exception + bool) \<times> heap" where
  "FilterItem_accepts_song_st h self song =
     (if checked_children (h ! self) = {} then (Inr True, h)
      else any_accepts_song_st h self song
             (sorted_list_of_set (checked_children (h ! self))))"

subsection \<open>Toggling\<close>

fun uncheck_each :: "addr list \<Rightarrow> heap \<Rightarrow> heap" where
  "uncheck_each [] h = h"
| "uncheck_each (child # rest) h = uncheck_each rest (upd h child (\<lambda>c. c\<lparr>checked := False\<rparr>))"

definition uncheck_children :: "heap \<Rightarrow> addr \<Rightarrow> heap" where
  "uncheck_children h self =
     (let h1 = uncheck_each (children (h ! self)) h;
          h2 = upd h1 self (\<lambda>s. s\<lparr>checked_children := {}\<rparr>);
          h3 = upd h2 self (\<lambda>s. s\<lparr>checkable := False\<rparr>)
      in upd h3 self (\<lambda>s. s\<lparr>checked := False\<rparr>))"

text \<open>
  \<open>self.checkable = self.checked = self.children[child].checked = True\<close> assigns
  the targets from left to right, so the subscript is evaluated last. When it raises, the
  call ends with the exception (the model does not return the store of that moment).
\<close>

definition check_child :: "heap \<Rightarrow> addr \<Rightarrow> int \<Rightarrow> py_exception + heap" where
  "check_child h self child =
     (let h1 = uncheck_children h self;
          h2 = upd h1 self (\<lambda>s. s\<lparr>checked_children := insert child (checked_children s)\<rparr>);
          h3 = upd h2 self (\<lambda>s. s\<lparr>checkable := True\<rparr>);
          h4 = upd h3 self (\<lambda>s. s\<lparr>checked := True\<rparr>)
      in case tuple_getitem (children (h4 ! self)) child of
           Inl e \<Rightarrow> Inl e
         | Inr c \<Rightarrow> Inr (upd h4 c (\<lambda>c. c\<lparr>checked := True\<rparr>)))"

definition FilterItem_toggle_checked :: "heap \<Rightarrow> addr \<Rightarrow> heap" where
  "FilterItem_toggle_checked h self =
     (if checked (h ! self) then uncheck_children h self else h)"

text \<open>
  \<open>self.parent\<close> is declared a \<open>FilterItem\<close>; on anything else the method looked
  up does not exist.
\<close>

definition VariantItem_toggle_checked :: "heap \<Rightarrow> addr \<Rightarrow> py_exception + heap" where
  "VariantItem_toggle_checked h self =
     (case parent (h ! self) of
        None \<Rightarrow> Inl AttributeError
      | Some p \<Rightarrow>
          if cls (h ! p) \<noteq> FilterItem then Inl AttributeError
          else if checked (h ! self) then Inr (uncheck_children h p)
          else check_child h p (row_in_parent (h ! self)))"

text \<open>Method dispatch on the class of the receiver; \<open>RootItem\<close> inherits the inert method.\<close>

definition toggle_checked :: "heap \<Rightarrow> addr \<Rightarrow> py_exception + heap" where
  "toggle_checked h self =
     (case cls (h ! self) of
        RootItem \<Rightarrow> Inr h
      | FilterItem \<Rightarrow> Inr (FilterItem_toggle_checked h self)
      | VariantItem \<Rightarrow> VariantItem_toggle_checked h self)"

text \<open>A sequence of toggles, one receiver after the other; the first exception ends it.\<close>

fun toggle_all :: "heap \<Rightarrow> addr list \<Rightarrow> py_exception + heap" where
  "toggle_all h [] = Inr h"
| "toggle_all h (a # as) =
     (case toggle_checked h a of
        Inl e \<Rightarrow> Inl e
      | Inr h' \<Rightarrow> toggle_all h' as)"

subsection \<open>Building the tree\<close>

text \<open>
  Modelled from the spec: the function that builds the tree is not part of the sources
  at hand (only the constructors and \<open>add_child\<close> are). Following the spec's section on
  tree construction: build a root, then for each filter kind in catalog order append a
  filter item; for each filter item append one variant item per predicate of that kind,
  the static variants or, for the four string-valued kinds, the values that the caller
  supplies. Each append is the source's \<open>add_child\<close>.
\<close>

text \<open>The members of the enum \<open>Filter\<close>, in the order of their definition.\<close>

definition catalog :: "Filter list" where
  "catalog = [ARTIST, TITLE, EDITION, LANGUAGE, GOLDEN_NOTES, RATING, VIEWS]"

text \<open>
  Modelled from the spec: the variants of a filter kind, the static ones or the strings
  that the caller supplies, each wrapped in the class that matches the kind's field.
\<close>

fun variants_of :: "(Filter \<Rightarrow> string list) \<Rightarrow> Filter \<Rightarrow> SongMatch list" where
  "variants_of provider ARTIST = map SongArtistMatch (provider ARTIST)"
| "variants_of provider TITLE = map SongTitleMatch (provider TITLE)"
| "variants_of provider EDITION = map SongEditionMatch (provider EDITION)"
| "variants_of provider LANGUAGE = map SongLanguageMatch (provider LANGUAGE)"
| "variants_of provider k = static_variants k"

text \<open>
  Modelled from the spec: one new variant item per predicate, appended to the filter item
  by \<open>FilterItem.add_child\<close>.
\<close>

fun add_variants :: "heap \<Rightarrow> addr \<Rightarrow> SongMatch list \<Rightarrow> heap" where
  "add_variants h f [] = h"
| "add_variants h f (m # ms) =
     (let (v, h1) = alloc h (new_VariantItem m f)
      in add_variants (FilterItem_add_child h1 f v) f ms)"

text \<open>
  Modelled from the spec: one new filter item per kind, appended to the root by
  \<open>RootItem.add_child\<close>, then its variants.
\<close>

fun add_filters :: "(Filter \<Rightarrow> SongMatch list) \<Rightarrow> heap \<Rightarrow> addr \<Rightarrow> Filter list \<Rightarrow> heap" where
  "add_filters vs h root [] = h"
| "add_filters vs h root (k # ks) =
     (let (f, h1) = alloc h (new_FilterItem k root);
          h2 = RootItem_add_child h1 root f
      in add_filters vs (add_variants h2 f (vs k)) root ks)"

text \<open>Modelled from the spec: the whole construction, from an empty store.\<close>

definition build_tree :: "(Filter \<Rightarrow> string list) \<Rightarrow> heap" where
  "build_tree provider =
     (let (root, h) = alloc [] new_RootItem
      in add_filters (variants_of provider) h root catalog)"

subsection \<open>Well-formed trees\<close>

text \<open>
  What \<open>add_child\<close> establishes between a filter item and its variants: every child of
  a filter item is a variant item that names the filter as its parent and its own
  position as \<open>row_in_parent\<close>, and every variant item sits in the children of its
  parent at the position \<open>row_in_parent\<close>.
\<close>

definition wf_filter :: "heap \<Rightarrow> addr \<Rightarrow> bool" where
  "wf_filter h f \<longleftrightarrow>
     (\<forall>i < length (children (h ! f)).
        children (h ! f) ! i < length h \<and>
        cls (h ! (children (h ! f) ! i)) = VariantItem \<and>
        parent (h ! (children (h ! f) ! i)) = Some f \<and>
        row_in_parent (h ! (children (h ! f) ! i)) = int i)"

definition wf_variant :: "heap \<Rightarrow> addr \<Rightarrow> bool" where
  "wf_variant h v \<longleftrightarrow>
     (case parent (h ! v) of
        None \<Rightarrow> False
      | Some f \<Rightarrow>
          f < length h \<and> cls (h ! f) = FilterItem \<and>
          0 \<le> row_in_parent (h ! v) \<and>
          nat (row_in_parent (h ! v)) < length (children (h ! f)) \<and>
          children (h ! f) ! nat (row_in_parent (h ! v)) = v)"

definition tree_wf :: "heap \<Rightarrow> bool" where
  "tree_wf h \<longleftrightarrow>
     (\<forall>a < length h.
        (cls (h ! a) = FilterItem \<longrightarrow> wf_filter h a) \<and>
        (cls (h ! a) = VariantItem \<longrightarrow> wf_variant h a))"

text \<open>Every variant item carries a predicate of one of the implementing classes.\<close>

definition concrete_variants :: "heap \<Rightarrow> bool" where
  "concrete_variants h \<longleftrightarrow>
     (\<forall>a < length h. cls (h ! a) = VariantItem \<longrightarrow>
        (\<exists>m. data (h ! a) = MatchData m \<and> m \<noteq> SongMatch_interface))"

text \<open>
  The state of the checkboxes: a filter item holds at most one checked index, inside its
  children, and its two flags say whether it holds one; a variant item is checked iff
  its parent holds its row.
\<close>

definition filter_consistent :: "TreeItem \<Rightarrow> bool" where
  "filter_consistent x \<longleftrightarrow>
     finite (checked_children x) \<and> card (checked_children x) \<le> 1 \<and>
     (\<forall>i \<in> checked_children x. 0 \<le> i \<and> i < int (length (children x))) \<and>
     checked x = (checked_children x \<noteq> {}) \<and>
     checkable x = (checked_children x \<noteq> {})"

definition variant_consistent :: "heap \<Rightarrow> TreeItem \<Rightarrow> bool" where
  "variant_consistent h x \<longleftrightarrow>
     (case parent x of
        None \<Rightarrow> False
      | Some f \<Rightarrow> checked x = (row_in_parent x \<in> checked_children (h ! f)))"

definition tree_inv :: "heap \<Rightarrow> bool" where
  "tree_inv h \<longleftrightarrow>
     (\<forall>a < length h.
        (cls (h ! a) = FilterItem \<longrightarrow> filter_consistent (h ! a)) \<and>
        (cls (h ! a) = VariantItem \<longrightarrow> variant_consistent h (h ! a)))"

text \<open>
  The state in which the constructors leave every object: nothing is checked, no index
  is held, and a filter item is not checkable. A tree built by \<open>add_child\<close> alone is in
  this state.
\<close>

definition fresh :: "heap \<Rightarrow> bool" where
  "fresh h \<longleftrightarrow>
     (\<forall>a < length h.
        \<not> checked (h ! a) \<and> checked_children (h ! a) = {} \<and>
        (cls (h ! a) = FilterItem \<longrightarrow> \<not> checkable (h ! a)))"

text \<open>Two stores with the same objects in the same tree: only the checkbox state may differ.\<close>

definition same_shape :: "heap \<Rightarrow> heap \<Rightarrow> bool" where
  "same_shape h h' \<longleftrightarrow>
     length h' = length h \<and>
     (\<forall>a < length h.
        cls (h' ! a) = cls (h ! a) \<and> data (h' ! a) = data (h ! a) \<and>
        parent (h' ! a) = parent (h ! a) \<and>
        row_in_parent (h' ! a) = row_in_parent (h ! a) \<and>
        children (h' ! a) = children (h ! a))"

text \<open>The state that \<open>uncheck_children\<close> leaves in the subtree of a filter item.\<close>

definition unconstrained :: "heap \<Rightarrow> addr \<Rightarrow> bool" where
  "unconstrained h f \<longleftrightarrow>
     checked_children (h ! f) = {} \<and> \<not> checked (h ! f) \<and> \<not> checkable (h ! f) \<and>
     (\<forall>c \<in> set (children (h ! f)). \<not> checked (h ! c))"

text \<open>
  The object at address \<open>a\<close> after variant \<open>v\<close> of filter \<open>f\<close> has been checked: the
  variant is checked, the filter holds the row of the variant alone, and the other
  children of the filter are unchecked.
\<close>

definition after_check :: "heap \<Rightarrow> addr \<Rightarrow> addr \<Rightarrow> addr \<Rightarrow> TreeItem" where
  "after_check h f v a =
     (if a = v then (h ! a)\<lparr>checked := True\<rparr>
      else if a = f
        then (h ! f)\<lparr>checked_children := {row_in_parent (h ! v)}, checkable := True, checked := True\<rparr>
      else if a \<in> set (children (h ! f)) then (h ! a)\<lparr>checked := False\<rparr>
      else h ! a)"

text \<open>
  The store after a new object \<open>x\<close> has been allocated and appended to the children of
  \<open>p\<close> by \<open>add_child\<close>, in closed form.
\<close>

definition appended :: "heap \<Rightarrow> addr \<Rightarrow> TreeItem \<Rightarrow> heap" where
  "appended h p x =
     h[p := (h ! p)\<lparr>children := children (h ! p) @ [length h]\<rparr>] @
     [x\<lparr>parent := Some p, row_in_parent := int (length (children (h ! p)))\<rparr>]"

text \<open>
  A small tree for examples: a root, the rating filter with the variants for one and two
  stars, and the golden notes filter with its two variants, as \<open>add_child\<close> links them.
\<close>

definition example_tree :: heap where
  "example_tree =
     [new_RootItem\<lparr>children := [1, 4]\<rparr>,
      (new_FilterItem RATING 0)\<lparr>children := [2, 3]\<rparr>,
      new_VariantItem (Rating R_1) 1,
      (new_VariantItem (Rating R_2) 1)\<lparr>row_in_parent := 1\<rparr>,
      (new_FilterItem GOLDEN_NOTES 0)\<lparr>row_in_parent := 1, children := [5, 6]\<rparr>,
      new_VariantItem (GoldenNotes NO) 4,
      (new_VariantItem (GoldenNotes YES) 4)\<lparr>row_in_parent := 1\<rparr>]"

text \<open>The same tree after the variant for one star (address 2) has been checked.\<close>

definition example_tree_checked :: heap where
  "example_tree_checked =
     [new_RootItem\<lparr>children := [1, 4]\<rparr>,
      (new_FilterItem RATING 0)\<lparr>children := [2, 3], checked := True, checkable := True,
         checked_children := {0}\<rparr>,
      (new_VariantItem (Rating R_1) 1)\<lparr>checked := True\<rparr>,
      (new_VariantItem (Rating R_2) 1)\<lparr>row_in_parent := 1\<rparr>,
      (new_FilterItem GOLDEN_NOTES 0)\<lparr>row_in_parent := 1, children := [5, 6]\<rparr>,
      new_VariantItem (GoldenNotes NO) 4,
      (new_VariantItem (GoldenNotes YES) 4)\<lparr>row_in_parent := 1\<rparr>]"

definition example_song :: SongData where
  "example_song =
     \<lparr>SongData.data = \<lparr>song_id = 1, artist = ''A'', title = ''X'', language = ''English'',
        edition = [], golden_notes = False, rating = 1, views = 50\<rparr>\<rparr>"

section \<open>Properties of the predicates\<close>

text \<open>
  C1 (the code at the input where it departs from the claim): the variant \<open>R_NONE\<close>
  carries the value \<open>None\<close>, which is equal to no integer, so it matches no song at all;
  in particular it does not match a song whose rating field is 0.
\<close>

theorem RatingVariant_R_NONE_matches_no_song:
  "matches_song (Rating R_NONE) song = Inr False \<and>
   \<not> RatingVariant_matches_song R_NONE
       \<lparr>SongData.data = \<lparr>song_id = 1, artist = ''A'', title = ''X'', language = ''English'',
                edition = '''', golden_notes = False, rating = 0, views = 50\<rparr>\<rparr>"
  by (simp add: RatingVariant_matches_song_def)

text \<open>
  C6: a views variant with bucket \<open>[lo, hi)\<close> matches a song iff \<open>lo \<le> views\<close> and
  (\<open>hi\<close> is unbounded or \<open>views < hi\<close>). A song with 100 views matches the bucket
  \<open>[100, 200)\<close> and not \<open>[0, 100)\<close>; a song with 999 views matches the unbounded
  bucket \<open>[500, \<infinity>)\<close> and no other.
\<close>

theorem ViewsVariant_matches_song_bucket:
  "(ViewsVariant_matches_song v song \<longleftrightarrow>
      (case ViewsVariant_value v of
         (lo, None) \<Rightarrow> lo \<le> views (SongData.data song)
       | (lo, Some hi) \<Rightarrow> lo \<le> views (SongData.data song) \<and> views (SongData.data song) < hi)) \<and>
   matches_song (Views v) song = Inr (ViewsVariant_matches_song v song) \<and>
   ViewsVariant_matches_song V_100 \<lparr>SongData.data = d\<lparr>views := 100\<rparr>\<rparr> \<and>
   \<not> ViewsVariant_matches_song V_0 \<lparr>SongData.data = d\<lparr>views := 100\<rparr>\<rparr> \<and>
   (ViewsVariant_matches_song v \<lparr>SongData.data = d\<lparr>views := 999\<rparr>\<rparr> \<longleftrightarrow> v = V_500)"
  by (cases v) (simp_all add: ViewsVariant_matches_song_def)

text \<open>
  C10: for a song whose views are not negative exactly one of the six views variants
  matches, and each variant matches exactly the views of its bucket: \<open>[0, 100)\<close>,
  \<open>[100, 200)\<close>, \<open>[200, 300)\<close>, \<open>[300, 400)\<close>, \<open>[400, 500)\<close> and \<open>[500, \<infinity>)\<close>. So
  the buckets are pairwise disjoint and together cover the non-negative integers.
\<close>

theorem ViewsVariant_exactly_one:
  assumes "0 \<le> views (SongData.data song)"
  shows "(\<exists>!v. ViewsVariant_matches_song v song) \<and>
    (ViewsVariant_matches_song V_0 song \<longleftrightarrow>
       0 \<le> views (SongData.data song) \<and> views (SongData.data song) < 100) \<and>
    (ViewsVariant_matches_song V_100 song \<longleftrightarrow>
       100 \<le> views (SongData.data song) \<and> views (SongData.data song) < 200) \<and>
    (ViewsVariant_matches_song V_200 song \<longleftrightarrow>
       200 \<le> views (SongData.data song) \<and> views (SongData.data song) < 300) \<and>
    (ViewsVariant_matches_song V_300 song \<longleftrightarrow>
       300 \<le> views (SongData.data song) \<and> views (SongData.data song) < 400) \<and>
    (ViewsVariant_matches_song V_400 song \<longleftrightarrow>
       400 \<le> views (SongData.data song) \<and> views (SongData.data song) < 500) \<and>
    (ViewsVariant_matches_song V_500 song \<longleftrightarrow> 500 \<le> views (SongData.data song))"
proof -
  let ?n = "views (SongData.data song)"
  have buckets:
    "ViewsVariant_matches_song V_0 song \<longleftrightarrow> 0 \<le> ?n \<and> ?n < 100"
    "ViewsVariant_matches_song V_100 song \<longleftrightarrow> 100 \<le> ?n \<and> ?n < 200"
    "ViewsVariant_matches_song V_200 song \<longleftrightarrow> 200 \<le> ?n \<and> ?n < 300"
    "ViewsVariant_matches_song V_300 song \<longleftrightarrow> 300 \<le> ?n \<and> ?n < 400"
    "ViewsVariant_matches_song V_400 song \<longleftrightarrow> 400 \<le> ?n \<and> ?n < 500"
    "ViewsVariant_matches_song V_500 song \<longleftrightarrow> 500 \<le> ?n"
    by (simp_all add: ViewsVariant_matches_song_def)
  consider "?n < 100" | "100 \<le> ?n" "?n < 200" | "200 \<le> ?n" "?n < 300"
    | "300 \<le> ?n" "?n < 400" | "400 \<le> ?n" "?n < 500" | "500 \<le> ?n"
    by linarith
  then obtain v where v: "ViewsVariant_matches_song v song"
  proof cases
    case 1
    with assms have "ViewsVariant_matches_song V_0 song"
      by (simp add: buckets)
    then show ?thesis by (rule that)
  next
    case 2
    then have "ViewsVariant_matches_song V_100 song"
      by (simp add: buckets)
    then show ?thesis by (rule that)
  next
    case 3
    then have "ViewsVariant_matches_song V_200 song"
      by (simp add: buckets)
    then show ?thesis by (rule that)
  next
    case 4
    then have "ViewsVariant_matches_song V_300 song"
      by (simp add: buckets)
    then show ?thesis by (rule that)
  next
    case 5
    then have "ViewsVariant_matches_song V_400 song"
      by (simp add: buckets)
    then show ?thesis by (rule that)
  next
    case 6
    then have "ViewsVariant_matches_song V_500 song"
      by (simp add: buckets)
    then show ?thesis by (rule that)
  qed
  moreover have "w = v" if "ViewsVariant_matches_song w song" for w
    using that v by (cases w; cases v) (simp_all add: buckets)
  ultimately have "\<exists>!v. ViewsVariant_matches_song v song" by blast
  with buckets show ?thesis by blast
qed

theorem ViewsVariant_exactly_one_witness:
  "0 \<le> views (SongData.data \<lparr>SongData.data = \<lparr>song_id = 2, artist = ''B'', title = ''Y'',
       language = ''German'', edition = [], golden_notes = True, rating = 0, views = 600\<rparr>\<rparr>) \<and>
   (\<exists>!v. ViewsVariant_matches_song v \<lparr>SongData.data = \<lparr>song_id = 2, artist = ''B'', title = ''Y'',
       language = ''German'', edition = [], golden_notes = True, rating = 0, views = 600\<rparr>\<rparr>) \<and>
   ViewsVariant_matches_song V_500 \<lparr>SongData.data = \<lparr>song_id = 2, artist = ''B'', title = ''Y'',
       language = ''German'', edition = [], golden_notes = True, rating = 0, views = 600\<rparr>\<rparr> \<and>
   \<not> ViewsVariant_matches_song V_0 \<lparr>SongData.data = \<lparr>song_id = 2, artist = ''B'', title = ''Y'',
       language = ''German'', edition = [], golden_notes = True, rating = 0, views = 600\<rparr>\<rparr> \<and>
   \<not> ViewsVariant_matches_song V_400 \<lparr>SongData.data = \<lparr>song_id = 2, artist = ''B'', title = ''Y'',
       language = ''German'', edition = [], golden_notes = True, rating = 0, views = 600\<rparr>\<rparr>"
  using ViewsVariant_exactly_one [of "\<lparr>SongData.data = \<lparr>song_id = 2, artist = ''B'', title = ''Y'',
       language = ''German'', edition = [], golden_notes = True, rating = 0, views = 600\<rparr>\<rparr>"]
  by simp

section \<open>The store and the invariants of the tree\<close>

subsection \<open>Reading the store after an update\<close>

lemma length_upd [simp]: "length (upd h a g) = length h"
  by (simp add: upd_def)

lemma nth_upd: "b < length h \<Longrightarrow> upd h a g ! b = (if b = a then g (h ! a) else h ! b)"
  by (simp add: upd_def)

lemma length_uncheck_each [simp]: "length (uncheck_each cs h) = length h"
  by (induction cs arbitrary: h) simp_all

lemma nth_uncheck_each:
  "a < length h \<Longrightarrow>
   uncheck_each cs h ! a = (if a \<in> set cs then (h ! a)\<lparr>checked := False\<rparr> else h ! a)"
  by (induction cs arbitrary: h) (auto simp: nth_upd)

lemma length_uncheck_children [simp]: "length (uncheck_children h f) = length h"
  by (simp add: uncheck_children_def Let_def)

lemma nth_uncheck_children:
  "a < length h \<Longrightarrow>
   uncheck_children h f ! a =
     (if a = f then (h ! f)\<lparr>checked := False, checkable := False, checked_children := {}\<rparr>
      else if a \<in> set (children (h ! f)) then (h ! a)\<lparr>checked := False\<rparr>
      else h ! a)"
  by (simp add: uncheck_children_def Let_def nth_upd nth_uncheck_each)

lemma tuple_getitem_in_range:
  "0 \<le> i \<Longrightarrow> i < int (length xs) \<Longrightarrow> tuple_getitem xs i = Inr (xs ! nat i)"
  by (simp add: tuple_getitem_def)

lemma check_child_in_range:
  assumes "0 \<le> i" "i < int (length (children (h ! f)))" "f < length h"
  shows "check_child h f i =
    Inr (upd (upd (uncheck_children h f) f
                (\<lambda>s. s\<lparr>checked_children := {i}, checkable := True, checked := True\<rparr>))
             (children (h ! f) ! nat i) (\<lambda>c. c\<lparr>checked := True\<rparr>))"
  using assms
  by (simp add: check_child_def Let_def nth_upd nth_uncheck_children tuple_getitem_in_range upd_def)


lemma nth_check_child:
  assumes "0 \<le> i" "i < int (length (children (h ! f)))" "f < length h"
    and "children (h ! f) ! nat i \<noteq> f" "children (h ! f) ! nat i < length h"
  shows "\<exists>h'. check_child h f i = Inr h' \<and> length h' = length h \<and>
     (\<forall>a < length h. h' ! a =
        (if a = children (h ! f) ! nat i then (h ! a)\<lparr>checked := True\<rparr>
         else if a = f then (h ! f)\<lparr>checked_children := {i}, checkable := True, checked := True\<rparr>
         else if a \<in> set (children (h ! f)) then (h ! a)\<lparr>checked := False\<rparr>
         else h ! a))"
proof -
  have "children (h ! f) ! nat i \<in> set (children (h ! f))"
    using assms(1,2) by simp
  then show ?thesis
    using assms by (simp add: check_child_in_range nth_upd nth_uncheck_children)
qed


lemma wf_variantD:
  assumes "tree_wf h" "v < length h" "cls (h ! v) = VariantItem"
  obtains f where "parent (h ! v) = Some f" "f < length h" "cls (h ! f) = FilterItem"
    "0 \<le> row_in_parent (h ! v)" "nat (row_in_parent (h ! v)) < length (children (h ! f))"
    "children (h ! f) ! nat (row_in_parent (h ! v)) = v"
proof -
  from assms have "wf_variant h v"
    by (simp add: tree_wf_def)
  then show ?thesis
    using that by (auto simp: wf_variant_def split: option.splits)
qed

lemma wf_filter_child:
  assumes "tree_wf h" "f < length h" "cls (h ! f) = FilterItem" "c \<in> set (children (h ! f))"
  shows "c < length h \<and> cls (h ! c) = VariantItem \<and> parent (h ! c) = Some f \<and>
         0 \<le> row_in_parent (h ! c) \<and> nat (row_in_parent (h ! c)) < length (children (h ! f)) \<and>
         children (h ! f) ! nat (row_in_parent (h ! c)) = c"
proof -
  from assms(1-3) have wf: "wf_filter h f"
    by (simp add: tree_wf_def)
  from assms(4) obtain i where i: "i < length (children (h ! f))" "children (h ! f) ! i = c"
    by (auto simp: in_set_conv_nth)
  with wf show ?thesis
    by (auto simp: wf_filter_def)
qed

lemma toggle_root: "cls (h ! a) = RootItem \<Longrightarrow> toggle_checked h a = Inr h"
  by (simp add: toggle_checked_def)

lemma toggle_filter:
  "cls (h ! f) = FilterItem \<Longrightarrow>
   toggle_checked h f = Inr (if checked (h ! f) then uncheck_children h f else h)"
  by (simp add: toggle_checked_def FilterItem_toggle_checked_def)

lemma toggle_variant_checked:
  assumes "cls (h ! v) = VariantItem" "parent (h ! v) = Some f" "cls (h ! f) = FilterItem"
    and "checked (h ! v)"
  shows "toggle_checked h v = Inr (uncheck_children h f)"
  using assms by (simp add: toggle_checked_def VariantItem_toggle_checked_def)

lemma toggle_variant_unchecked:
  assumes wf: "tree_wf h" and v: "v < length h" "cls (h ! v) = VariantItem"
    and p: "parent (h ! v) = Some f" and u: "\<not> checked (h ! v)"
  shows "\<exists>h'. toggle_checked h v = Inr h' \<and> length h' = length h \<and>
     (\<forall>a < length h. h' ! a = after_check h f v a)"
proof -
  from wf v p have f: "f < length h" "cls (h ! f) = FilterItem"
    and r: "0 \<le> row_in_parent (h ! v)" "nat (row_in_parent (h ! v)) < length (children (h ! f))"
    and c: "children (h ! f) ! nat (row_in_parent (h ! v)) = v"
    by (auto elim: wf_variantD)
  from r have r': "row_in_parent (h ! v) < int (length (children (h ! f)))"
    by linarith
  from f v have "v \<noteq> f" by auto
  with nth_check_child [OF r(1) r' f(1)] c v(1)
  have "\<exists>h'. check_child h f (row_in_parent (h ! v)) = Inr h' \<and> length h' = length h \<and>
     (\<forall>a < length h. h' ! a = after_check h f v a)"
    unfolding after_check_def by simp
  moreover have "toggle_checked h v = check_child h f (row_in_parent (h ! v))"
    using v p f u by (simp add: toggle_checked_def VariantItem_toggle_checked_def)
  ultimately show ?thesis by simp
qed

lemma same_shape_refl: "same_shape h h"
  by (simp add: same_shape_def)

lemma same_shape_trans: "same_shape h h' \<Longrightarrow> same_shape h' h'' \<Longrightarrow> same_shape h h''"
  by (simp add: same_shape_def)

lemma same_shape_uncheck_children: "same_shape h (uncheck_children h f)"
  by (simp add: same_shape_def nth_uncheck_children)

subsection \<open>The shape of the tree\<close>

lemma same_shape_fields:
  assumes "same_shape h h'" "a < length h"
  shows "cls (h' ! a) = cls (h ! a)" "data (h' ! a) = data (h ! a)"
    "parent (h' ! a) = parent (h ! a)" "row_in_parent (h' ! a) = row_in_parent (h ! a)"
    "children (h' ! a) = children (h ! a)"
  using assms unfolding same_shape_def by blast+

lemma same_shape_length: "same_shape h h' \<Longrightarrow> length h' = length h"
  by (simp add: same_shape_def)

lemma wf_filter_same_shape:
  assumes ss: "same_shape h h'" and f: "f < length h" and wf: "wf_filter h f"
  shows "wf_filter h' f"
  unfolding wf_filter_def
proof (intro allI impI)
  fix i assume "i < length (children (h' ! f))"
  then have i: "i < length (children (h ! f))"
    using same_shape_fields(5) [OF ss f] by simp
  let ?c = "children (h ! f) ! i"
  from wf i have c: "?c < length h" "cls (h ! ?c) = VariantItem" "parent (h ! ?c) = Some f"
    "row_in_parent (h ! ?c) = int i"
    by (simp_all add: wf_filter_def)
  have eq: "children (h' ! f) = children (h ! f)"
    by (rule same_shape_fields(5) [OF ss f])
  show "children (h' ! f) ! i < length h' \<and>
        cls (h' ! (children (h' ! f) ! i)) = VariantItem \<and>
        parent (h' ! (children (h' ! f) ! i)) = Some f \<and>
        row_in_parent (h' ! (children (h' ! f) ! i)) = int i"
    using c same_shape_fields [OF ss c(1)] same_shape_length [OF ss] by (simp add: eq)
qed

lemma wf_variant_same_shape:
  assumes ss: "same_shape h h'" and v: "v < length h" and wf: "wf_variant h v"
  shows "wf_variant h' v"
proof -
  from wf obtain f where p: "parent (h ! v) = Some f" and f: "f < length h"
    and rest: "cls (h ! f) = FilterItem" "0 \<le> row_in_parent (h ! v)"
      "nat (row_in_parent (h ! v)) < length (children (h ! f))"
      "children (h ! f) ! nat (row_in_parent (h ! v)) = v"
    by (auto simp: wf_variant_def split: option.splits)
  show ?thesis
    using p f rest same_shape_fields [OF ss v] same_shape_fields [OF ss f] same_shape_length [OF ss]
    by (simp add: wf_variant_def)
qed

lemma tree_wf_same_shape:
  assumes "same_shape h h'" "tree_wf h"
  shows "tree_wf h'"
  unfolding tree_wf_def
proof (intro allI impI conjI)
  fix a assume "a < length h'" "cls (h' ! a) = FilterItem"
  with assms show "wf_filter h' a"
    using same_shape_fields(1) [OF assms(1), of a] same_shape_length [OF assms(1)]
    by (simp add: tree_wf_def wf_filter_same_shape)
next
  fix a assume "a < length h'" "cls (h' ! a) = VariantItem"
  with assms show "wf_variant h' a"
    using same_shape_fields(1) [OF assms(1), of a] same_shape_length [OF assms(1)]
    by (simp add: tree_wf_def wf_variant_same_shape)
qed

lemma concrete_variants_same_shape:
  assumes "same_shape h h'" "concrete_variants h"
  shows "concrete_variants h'"
  unfolding concrete_variants_def
proof (intro allI impI)
  fix a assume "a < length h'" "cls (h' ! a) = VariantItem"
  then have a: "a < length h" "cls (h ! a) = VariantItem"
    using same_shape_fields(1) [OF assms(1), of a] same_shape_length [OF assms(1)] by simp_all
  with assms(2) obtain m where "data (h ! a) = MatchData m" "m \<noteq> SongMatch_interface"
    by (auto simp: concrete_variants_def)
  then show "\<exists>m. data (h' ! a) = MatchData m \<and> m \<noteq> SongMatch_interface"
    using same_shape_fields(2) [OF assms(1) a(1)] by simp
qed

subsection \<open>Unchecking keeps the checkbox state consistent\<close>

lemma filter_not_child:
  assumes "tree_wf h" "f < length h" "cls (h ! f) = FilterItem" "cls (h ! a) = FilterItem"
  shows "a \<notin> set (children (h ! f))"
  using wf_filter_child [OF assms(1-3), of a] assms(4) by auto

lemma tree_inv_uncheck_children:
  assumes wf: "tree_wf h" and inv: "tree_inv h" and f: "f < length h" "cls (h ! f) = FilterItem"
  shows "tree_inv (uncheck_children h f)"
  unfolding tree_inv_def
proof (intro allI impI conjI)
  let ?U = "uncheck_children h f"
  fix a assume a: "a < length ?U" and c: "cls (?U ! a) = FilterItem"
  from a have a': "a < length h" by simp
  from c a' have ca: "cls (h ! a) = FilterItem"
    by (simp add: nth_uncheck_children split: if_splits)
  show "filter_consistent (?U ! a)"
  proof (cases "a = f")
    case True
    then show ?thesis using a' by (simp add: nth_uncheck_children filter_consistent_def)
  next
    case False
    moreover have "a \<notin> set (children (h ! f))"
      by (rule filter_not_child [OF wf f ca])
    ultimately have "?U ! a = h ! a"
      using a' by (simp add: nth_uncheck_children)
    with inv a' ca show ?thesis by (simp add: tree_inv_def)
  qed
next
  let ?U = "uncheck_children h f"
  fix a assume a: "a < length ?U" and c: "cls (?U ! a) = VariantItem"
  from a have a': "a < length h" by simp
  from c a' have ca: "cls (h ! a) = VariantItem"
    by (simp add: nth_uncheck_children split: if_splits)
  with f have af: "a \<noteq> f" by auto
  from wf a' ca obtain g where g: "parent (h ! a) = Some g" "g < length h"
    "cls (h ! g) = FilterItem" "nat (row_in_parent (h ! a)) < length (children (h ! g))"
    "children (h ! g) ! nat (row_in_parent (h ! a)) = a"
    by (auto elim: wf_variantD)
  show "variant_consistent ?U (?U ! a)"
  proof (cases "g = f")
    case True
    with g have "a \<in> set (children (h ! f))"
      by (metis nth_mem)
    then show ?thesis
      using a' af g True f by (simp add: nth_uncheck_children variant_consistent_def)
  next
    case False
    have "a \<notin> set (children (h ! f))"
      using wf_filter_child [OF wf f, of a] g(1) False by auto
    then have ua: "?U ! a = h ! a"
      using a' af by (simp add: nth_uncheck_children)
    have "g \<notin> set (children (h ! f))"
      by (rule filter_not_child [OF wf f g(3)])
    then have ug: "?U ! g = h ! g"
      using g(2) False by (simp add: nth_uncheck_children)
    from inv a' ca have "variant_consistent h (h ! a)"
      by (simp add: tree_inv_def)
    then show ?thesis
      using g(1) by (simp add: ua ug variant_consistent_def)
  qed
qed

subsection \<open>Checking keeps the checkbox state consistent\<close>

lemma same_shape_after_check:
  assumes "length h' = length h" "\<forall>a < length h. h' ! a = after_check h f v a"
  shows "same_shape h h'"
  using assms by (simp add: same_shape_def after_check_def)

lemma tree_inv_after_check:
  assumes wf: "tree_wf h" and inv: "tree_inv h"
    and v: "v < length h" "cls (h ! v) = VariantItem" and p: "parent (h ! v) = Some f"
    and len: "length h' = length h" and h': "\<forall>a < length h. h' ! a = after_check h f v a"
  shows "tree_inv h'"
  unfolding tree_inv_def
proof (intro allI impI conjI)
  from wf v p have f: "f < length h" "cls (h ! f) = FilterItem"
    and r: "0 \<le> row_in_parent (h ! v)" "nat (row_in_parent (h ! v)) < length (children (h ! f))"
    by (auto elim: wf_variantD)
  from f v have vf: "v \<noteq> f" by auto
  fix a assume a: "a < length h'" and c: "cls (h' ! a) = FilterItem"
  from a len have a': "a < length h" by simp
  from c a' h' have ca: "cls (h ! a) = FilterItem"
    by (simp add: after_check_def split: if_splits)
  with v have av: "a \<noteq> v" by auto
  show "filter_consistent (h' ! a)"
  proof (cases "a = f")
    case True
    have "filter_consistent (h ! f)"
      using inv f by (simp add: tree_inv_def)
    then show ?thesis
      using a' h' True vf r by (simp add: after_check_def filter_consistent_def)
  next
    case False
    moreover have "a \<notin> set (children (h ! f))"
      by (rule filter_not_child [OF wf f ca])
    ultimately have "h' ! a = h ! a"
      using a' h' av by (simp add: after_check_def)
    with inv a' ca show ?thesis by (simp add: tree_inv_def)
  qed
next
  from wf v p have f: "f < length h" "cls (h ! f) = FilterItem"
    and cv: "children (h ! f) ! nat (row_in_parent (h ! v)) = v"
    and rv: "0 \<le> row_in_parent (h ! v)"
    by (auto elim: wf_variantD)
  from f v have vf: "v \<noteq> f" by auto
  have hf: "h' ! f = (h ! f)\<lparr>checked_children := {row_in_parent (h ! v)}, checkable := True, checked := True\<rparr>"
    using h' f vf by (simp add: after_check_def)
  fix a assume a: "a < length h'" and c: "cls (h' ! a) = VariantItem"
  from a len have a': "a < length h" by simp
  from c a' h' have ca: "cls (h ! a) = VariantItem"
    by (simp add: after_check_def split: if_splits)
  with f have af: "a \<noteq> f" by auto
  from wf a' ca obtain g where g: "parent (h ! a) = Some g" "g < length h"
    "cls (h ! g) = FilterItem" "nat (row_in_parent (h ! a)) < length (children (h ! g))"
    "children (h ! g) ! nat (row_in_parent (h ! a)) = a" "0 \<le> row_in_parent (h ! a)"
    by (auto elim: wf_variantD)
  show "variant_consistent h' (h' ! a)"
  proof (cases "a = v")
    case True
    then show ?thesis
      using h' v p hf by (simp add: after_check_def variant_consistent_def)
  next
    case av: False
    show ?thesis
    proof (cases "g = f")
      case True
      with g have "a \<in> set (children (h ! f))"
        by (metis nth_mem)
      then have ha: "h' ! a = (h ! a)\<lparr>checked := False\<rparr>"
        using h' a' av af by (simp add: after_check_def)
      have "row_in_parent (h ! a) \<noteq> row_in_parent (h ! v)"
        using g(5) cv av True by auto
      then show ?thesis
        using ha hf g(1) True by (simp add: variant_consistent_def)
    next
      case False
      have "a \<notin> set (children (h ! f))"
        using wf_filter_child [OF wf f, of a] g(1) False by auto
      then have ua: "h' ! a = h ! a"
        using h' a' af av by (simp add: after_check_def)
      have "g \<notin> set (children (h ! f))"
        by (rule filter_not_child [OF wf f g(3)])
      moreover have "g \<noteq> v" using g(3) v by auto
      ultimately have ug: "h' ! g = h ! g"
        using h' g(2) False by (simp add: after_check_def)
      from inv a' ca have "variant_consistent h (h ! a)"
        by (simp add: tree_inv_def)
      then show ?thesis
        using g(1) by (simp add: ua ug variant_consistent_def)
    qed
  qed
qed

subsection \<open>Toggles, one and many\<close>

lemma toggle_checked_step:
  assumes wf: "tree_wf h" and inv: "tree_inv h" and a: "a < length h"
  shows "\<exists>h'. toggle_checked h a = Inr h' \<and> same_shape h h' \<and> tree_inv h'"
proof (cases "cls (h ! a)")
  case RootItem
  then show ?thesis
    using inv by (simp add: toggle_root same_shape_refl)
next
  case FilterItem
  then show ?thesis
    using wf inv a
    by (simp add: toggle_filter same_shape_refl same_shape_uncheck_children
        tree_inv_uncheck_children)
next
  case VariantItem
  with wf a obtain f where f: "parent (h ! a) = Some f" "f < length h" "cls (h ! f) = FilterItem"
    by (auto elim: wf_variantD)
  show ?thesis
  proof (cases "checked (h ! a)")
    case True
    then show ?thesis
      using VariantItem f wf inv
      by (simp add: toggle_variant_checked same_shape_uncheck_children tree_inv_uncheck_children)
  next
    case False
    from toggle_variant_unchecked [OF wf a VariantItem f(1) False]
    obtain h' where h': "toggle_checked h a = Inr h'" "length h' = length h"
      "\<forall>b < length h. h' ! b = after_check h f a b"
      by blast
    then show ?thesis
      using same_shape_after_check [OF h'(2,3)]
        tree_inv_after_check [OF wf inv a VariantItem f(1) h'(2,3)]
      by simp
  qed
qed

lemma toggle_all_steps:
  assumes "tree_wf h" "tree_inv h" "list_all (\<lambda>a. a < length h) ops"
  shows "\<exists>h'. toggle_all h ops = Inr h' \<and> same_shape h h' \<and> tree_inv h'"
  using assms
proof (induction ops arbitrary: h)
  case Nil
  then show ?case by (simp add: same_shape_refl)
next
  case (Cons a ops)
  from Cons.prems obtain h1 where h1: "toggle_checked h a = Inr h1" "same_shape h h1" "tree_inv h1"
    using toggle_checked_step [of h a] by auto
  have "tree_wf h1"
    using h1(2) Cons.prems(1) by (rule tree_wf_same_shape)
  moreover have "list_all (\<lambda>a. a < length h1) ops"
    using Cons.prems(3) same_shape_length [OF h1(2)] by simp
  ultimately obtain h' where "toggle_all h1 ops = Inr h'" "same_shape h1 h'" "tree_inv h'"
    using Cons.IH [of h1] h1(3) by blast
  then show ?case
    using h1 by (auto intro: same_shape_trans)
qed

lemma RootItem_add_child_alloc:
  assumes "p < length h"
  shows "RootItem_add_child (h @ [x]) p (length h) = appended h p x"
  using assms
  by (simp add: RootItem_add_child_def appended_def upd_def Let_def nth_append list_update_append)

lemma FilterItem_add_child_alloc:
  assumes "p < length h"
  shows "FilterItem_add_child (h @ [x]) p (length h) = appended h p x"
  using assms
  by (simp add: FilterItem_add_child_def appended_def upd_def Let_def nth_append list_update_append)

lemma length_appended [simp]: "length (appended h p x) = Suc (length h)"
  by (simp add: appended_def)

lemma nth_appended:
  assumes "p < length h" "a \<le> length h"
  shows "appended h p x ! a =
    (if a = length h then x\<lparr>parent := Some p, row_in_parent := int (length (children (h ! p)))\<rparr>
     else if a = p then (h ! p)\<lparr>children := children (h ! p) @ [length h]\<rparr>
     else h ! a)"
  using assms by (auto simp: appended_def nth_append)

subsection \<open>Appending a child keeps the tree well-formed\<close>

lemma wf_filter_old_child:
  assumes "wf_filter h a" "i < length (children (h ! a))" "p < length h" "cls (h ! p) \<noteq> VariantItem"
  shows "children (h ! a) ! i < length h \<and>
         appended h p x ! (children (h ! a) ! i) = h ! (children (h ! a) ! i) \<and>
         cls (h ! (children (h ! a) ! i)) = VariantItem \<and>
         parent (h ! (children (h ! a) ! i)) = Some a \<and>
         row_in_parent (h ! (children (h ! a) ! i)) = int i"
proof -
  let ?c = "children (h ! a) ! i"
  from assms(1,2) have c: "?c < length h" "cls (h ! ?c) = VariantItem" "parent (h ! ?c) = Some a"
    "row_in_parent (h ! ?c) = int i"
    by (simp_all add: wf_filter_def)
  with assms(4) have "?c \<noteq> p" by auto
  with c assms(3) show ?thesis by (simp add: nth_appended)
qed

lemma wf_filter_appended_other:
  assumes "wf_filter h a" "a < length h" "a \<noteq> p" "p < length h" "cls (h ! p) \<noteq> VariantItem"
  shows "wf_filter (appended h p x) a"
  unfolding wf_filter_def
proof (intro allI impI)
  fix i assume "i < length (children (appended h p x ! a))"
  then have i: "i < length (children (h ! a))"
    using assms(2-4) by (simp add: nth_appended)
  have eq: "appended h p x ! a = h ! a"
    using assms(2-4) by (simp add: nth_appended)
  show "children (appended h p x ! a) ! i < length (appended h p x) \<and>
        cls (appended h p x ! (children (appended h p x ! a) ! i)) = VariantItem \<and>
        parent (appended h p x ! (children (appended h p x ! a) ! i)) = Some a \<and>
        row_in_parent (appended h p x ! (children (appended h p x ! a) ! i)) = int i"
    using wf_filter_old_child [OF assms(1) i assms(4,5), of x] by (simp add: eq)
qed

lemma wf_filter_appended_parent:
  assumes "wf_filter h p" "p < length h" "cls (h ! p) = FilterItem" "cls x = VariantItem"
  shows "wf_filter (appended h p x) p"
  unfolding wf_filter_def
proof (intro allI impI)
  have eq: "children (appended h p x ! p) = children (h ! p) @ [length h]"
    using assms(2) by (simp add: nth_appended)
  fix i assume "i < length (children (appended h p x ! p))"
  then consider "i < length (children (h ! p))" | "i = length (children (h ! p))"
    using eq by (auto simp: less_Suc_eq)
  then show "children (appended h p x ! p) ! i < length (appended h p x) \<and>
        cls (appended h p x ! (children (appended h p x ! p) ! i)) = VariantItem \<and>
        parent (appended h p x ! (children (appended h p x ! p) ! i)) = Some p \<and>
        row_in_parent (appended h p x ! (children (appended h p x ! p) ! i)) = int i"
  proof cases
    case 1
    have "cls (h ! p) \<noteq> VariantItem" using assms(3) by simp
    from wf_filter_old_child [OF assms(1) 1 assms(2) this, of x] 1
    show ?thesis by (simp add: eq nth_append)
  next
    case 2
    then show ?thesis
      using assms(2,4) by (simp add: eq nth_append nth_appended)
  qed
qed

lemma wf_variant_appended_old:
  assumes "wf_variant h a" "a < length h" "p < length h" "a \<noteq> p"
  shows "wf_variant (appended h p x) a"
proof -
  from assms(1) obtain g where g: "parent (h ! a) = Some g" "g < length h"
    "cls (h ! g) = FilterItem" "0 \<le> row_in_parent (h ! a)"
    "nat (row_in_parent (h ! a)) < length (children (h ! g))"
    "children (h ! g) ! nat (row_in_parent (h ! a)) = a"
    by (auto simp: wf_variant_def split: option.splits)
  have eq: "appended h p x ! a = h ! a"
    using assms(2-4) by (simp add: nth_appended)
  show ?thesis
    using g assms(3) by (auto simp: wf_variant_def eq nth_appended nth_append)
qed

lemma tree_wf_appended_variant:
  assumes wf: "tree_wf h" and p: "p < length h" "cls (h ! p) = FilterItem"
    and x: "cls x = VariantItem"
  shows "tree_wf (appended h p x)"
  unfolding tree_wf_def
proof (intro allI impI conjI)
  fix a assume a: "a < length (appended h p x)" and c: "cls (appended h p x ! a) = FilterItem"
  from a c p x have a': "a < length h" and ca: "cls (h ! a) = FilterItem"
    by (auto simp: nth_appended less_Suc_eq split: if_splits)
  with wf have wfa: "wf_filter h a" by (simp add: tree_wf_def)
  show "wf_filter (appended h p x) a"
  proof (cases "a = p")
    case True
    with wfa p x show ?thesis by (simp add: wf_filter_appended_parent)
  next
    case False
    with wfa a' p show ?thesis by (simp add: wf_filter_appended_other)
  qed
next
  fix a assume a: "a < length (appended h p x)" and c: "cls (appended h p x ! a) = VariantItem"
  show "wf_variant (appended h p x) a"
  proof (cases "a = length h")
    case True
    then show ?thesis
      using p by (simp add: wf_variant_def nth_appended nth_append)
  next
    case False
    with a have a': "a < length h" by simp
    with c p have ca: "cls (h ! a) = VariantItem" and ap: "a \<noteq> p"
      by (auto simp: nth_appended split: if_splits)
    with wf a' have "wf_variant h a" by (simp add: tree_wf_def)
    then show ?thesis using a' p ap by (simp add: wf_variant_appended_old)
  qed
qed

lemma tree_wf_appended_filter:
  assumes wf: "tree_wf h" and p: "p < length h" "cls (h ! p) = RootItem"
    and x: "cls x = FilterItem" "children x = []"
  shows "tree_wf (appended h p x)"
  unfolding tree_wf_def
proof (intro allI impI conjI)
  fix a assume a: "a < length (appended h p x)" and c: "cls (appended h p x ! a) = FilterItem"
  show "wf_filter (appended h p x) a"
  proof (cases "a = length h")
    case True
    then show ?thesis
      using p x by (simp add: wf_filter_def nth_appended)
  next
    case False
    with a have a': "a < length h" by simp
    with c p have ca: "cls (h ! a) = FilterItem" and ap: "a \<noteq> p"
      by (auto simp: nth_appended split: if_splits)
    with wf a' have "wf_filter h a" by (simp add: tree_wf_def)
    then show ?thesis using a' p ap by (simp add: wf_filter_appended_other)
  qed
next
  fix a assume a: "a < length (appended h p x)" and c: "cls (appended h p x ! a) = VariantItem"
  from a c p x have a': "a < length h" and ca: "cls (h ! a) = VariantItem" and ap: "a \<noteq> p"
    by (auto simp: nth_appended less_Suc_eq split: if_splits)
  with wf have "wf_variant h a" by (simp add: tree_wf_def)
  then show "wf_variant (appended h p x) a"
    using a' p ap by (simp add: wf_variant_appended_old)
qed

subsection \<open>Appending a child keeps the tree fresh\<close>

lemma fresh_appended:
  assumes "fresh h" "p < length h" "\<not> checked x" "checked_children x = {}"
    and "cls x = FilterItem \<longrightarrow> \<not> checkable x"
  shows "fresh (appended h p x)"
  unfolding fresh_def
proof (intro allI impI)
  fix a assume "a < length (appended h p x)"
  then consider "a = length h" | "a < length h" "a = p" | "a < length h" "a \<noteq> p"
    by (auto simp: less_Suc_eq)
  then show "\<not> checked (appended h p x ! a) \<and> checked_children (appended h p x ! a) = {} \<and>
      (cls (appended h p x ! a) = FilterItem \<longrightarrow> \<not> checkable (appended h p x ! a))"
  proof cases
    case 1
    then show ?thesis using assms(2-5) by (simp add: nth_appended)
  next
    case 2
    then show ?thesis using assms(1) by (simp add: nth_appended fresh_def)
  next
    case 3
    then show ?thesis using assms(1,2) by (simp add: nth_appended fresh_def)
  qed
qed

lemma fresh_tree_inv:
  assumes "tree_wf h" "fresh h"
  shows "tree_inv h"
  unfolding tree_inv_def
proof (intro allI impI conjI)
  fix a assume "a < length h" "cls (h ! a) = FilterItem"
  with assms(2) show "filter_consistent (h ! a)"
    by (simp add: fresh_def filter_consistent_def)
next
  fix a assume a: "a < length h" "cls (h ! a) = VariantItem"
  with assms(1) obtain f where "parent (h ! a) = Some f" "f < length h"
    by (auto elim: wf_variantD)
  with assms(2) a(1) show "variant_consistent h (h ! a)"
    by (simp add: fresh_def variant_consistent_def)
qed

lemma concrete_variants_appended:
  assumes cv: "concrete_variants h" and p: "p < length h" "cls (h ! p) \<noteq> VariantItem"
    and x: "cls x = VariantItem \<longrightarrow> (\<exists>m. data x = MatchData m \<and> m \<noteq> SongMatch_interface)"
  shows "concrete_variants (appended h p x)"
  unfolding concrete_variants_def
proof (intro allI impI)
  fix a assume a: "a < length (appended h p x)" and c: "cls (appended h p x ! a) = VariantItem"
  show "\<exists>m. data (appended h p x ! a) = MatchData m \<and> m \<noteq> SongMatch_interface"
  proof (cases "a = length h")
    case True
    then show ?thesis using c p x by (simp add: nth_appended)
  next
    case False
    with a have a': "a < length h" by simp
    with c p have "cls (h ! a) = VariantItem" "a \<noteq> p"
      by (auto simp: nth_appended split: if_splits)
    then show ?thesis
      using cv a' p by (simp add: concrete_variants_def nth_appended)
  qed
qed

subsection \<open>The built tree\<close>

lemma add_variants_Cons:
  "f < length h \<Longrightarrow>
   add_variants h f (m # ms) = add_variants (appended h f (new_VariantItem m f)) f ms"
  by (simp add: alloc_def FilterItem_add_child_alloc)

lemma add_variants_props:
  assumes "tree_wf h" "fresh h" "concrete_variants h" "f < length h" "cls (h ! f) = FilterItem"
    and "SongMatch_interface \<notin> set ms"
  shows "tree_wf (add_variants h f ms) \<and> fresh (add_variants h f ms) \<and>
         concrete_variants (add_variants h f ms) \<and>
         length (add_variants h f ms) = length h + length ms \<and>
         (\<forall>a < length h. cls (add_variants h f ms ! a) = cls (h ! a))"
  using assms
proof (induction ms arbitrary: h)
  case Nil
  then show ?case by simp
next
  case (Cons m ms)
  let ?h1 = "appended h f (new_VariantItem m f)"
  have x: "cls (new_VariantItem m f) = VariantItem" "\<not> checked (new_VariantItem m f)"
    "data (new_VariantItem m f) = MatchData m" "checked_children (new_VariantItem m f) = {}"
    by (simp_all add: new_VariantItem_def)
  have cls1: "cls (?h1 ! a) = cls (h ! a)" if "a < length h" for a
    using that Cons.prems(4) by (simp add: nth_appended)
  have 1: "tree_wf ?h1"
    using Cons.prems(1,4,5) x(1) by (rule tree_wf_appended_variant)
  have 2: "fresh ?h1"
    using Cons.prems(2,4) x(1,2,4) by (intro fresh_appended) simp_all
  have 3: "concrete_variants ?h1"
    using Cons.prems(3,4,5,6) x(3) by (intro concrete_variants_appended) auto
  have 4: "f < length ?h1" "cls (?h1 ! f) = FilterItem"
    using Cons.prems(4,5) cls1 by simp_all
  have 5: "SongMatch_interface \<notin> set ms"
    using Cons.prems(6) by simp
  from Cons.IH [OF 1 2 3 4 5] show ?case
    using Cons.prems(4) cls1 by (simp add: add_variants_Cons del: add_variants.simps)
qed

lemma add_filters_Cons:
  "root < length h \<Longrightarrow>
   add_filters vs h root (k # ks) =
     add_filters vs (add_variants (appended h root (new_FilterItem k root)) (length h) (vs k)) root ks"
  by (simp add: alloc_def RootItem_add_child_alloc)

lemma add_filters_props:
  assumes "tree_wf h" "fresh h" "concrete_variants h" "root < length h" "cls (h ! root) = RootItem"
    and "\<forall>k. SongMatch_interface \<notin> set (vs k)"
  shows "tree_wf (add_filters vs h root ks) \<and> fresh (add_filters vs h root ks) \<and>
         concrete_variants (add_filters vs h root ks) \<and>
         length (add_filters vs h root ks) = length h + length ks + sum_list (map (\<lambda>k. length (vs k)) ks)"
  using assms
proof (induction ks arbitrary: h)
  case Nil
  then show ?case by simp
next
  case (Cons k ks)
  let ?x = "new_FilterItem k root"
  let ?h1 = "appended h root ?x"
  let ?h2 = "add_variants ?h1 (length h) (vs k)"
  have x: "cls ?x = FilterItem" "children ?x = []" "checked_children ?x = {}" "\<not> checked ?x"
    "\<not> checkable ?x"
    by (simp_all add: new_FilterItem_def)
  have 1: "tree_wf ?h1"
    using Cons.prems(1,4,5) x(1,2) by (rule tree_wf_appended_filter)
  have 2: "fresh ?h1"
    using Cons.prems(2,4) x(3,4,5) by (intro fresh_appended) simp_all
  have 3: "concrete_variants ?h1"
    using Cons.prems(3,4,5) x(1) by (intro concrete_variants_appended) auto
  have 4: "length h < length ?h1" "cls (?h1 ! length h) = FilterItem"
    using Cons.prems(4) x(1) by (simp_all add: nth_appended)
  have 5: "SongMatch_interface \<notin> set (vs k)"
    using Cons.prems(6) by simp
  note v = add_variants_props [OF 1 2 3 4 5]
  have r: "root < length ?h2" "cls (?h2 ! root) = RootItem"
    using v Cons.prems(4,5) by (simp_all add: nth_appended)
  from Cons.IH [of ?h2] v r Cons.prems(6) show ?case
    using Cons.prems(4) by (simp add: add_filters_Cons del: add_filters.simps)
qed

lemma variants_of_concrete: "SongMatch_interface \<notin> set (variants_of provider k)"
  by (cases k) auto

lemma initial_store:
  "tree_wf [new_RootItem]" "fresh [new_RootItem]" "concrete_variants [new_RootItem]"
  by (simp_all add: tree_wf_def fresh_def concrete_variants_def new_RootItem_def)

lemma build_tree_props:
  "tree_wf (build_tree provider) \<and> fresh (build_tree provider) \<and>
   concrete_variants (build_tree provider) \<and>
   length (build_tree provider) =
     22 + length (provider ARTIST) + length (provider TITLE) + length (provider EDITION) +
     length (provider LANGUAGE)"
proof -
  have "cls ([new_RootItem] ! 0) = RootItem"
    by (simp add: new_RootItem_def)
  moreover have "sum_list (map (\<lambda>k. length (variants_of provider k)) catalog) =
      14 + length (provider ARTIST) + length (provider TITLE) + length (provider EDITION) +
      length (provider LANGUAGE)"
    by (simp add: catalog_def)
  moreover have "length catalog = 7"
    by (simp add: catalog_def)
  ultimately show ?thesis
    using add_filters_props [OF initial_store, of 0 "variants_of provider" catalog]
    by (simp add: build_tree_def alloc_def variants_of_concrete del: add_filters.simps)
qed

subsection \<open>Accepting a song on a consistent tree\<close>

lemma any_accepts_song_total:
  assumes "\<forall>i \<in> set is. \<exists>c b. tuple_getitem cs i = Inr c \<and> VariantItem_accepts_song h c song = Inr b"
  shows "any_accepts_song h cs song is =
    Inr (\<exists>i \<in> set is. \<exists>c. tuple_getitem cs i = Inr c \<and> VariantItem_accepts_song h c song = Inr True)"
  using assms
proof (induction "is")
  case Nil
  then show ?case by simp
next
  case (Cons i "is")
  from Cons.prems obtain c b where c: "tuple_getitem cs i = Inr c"
    "VariantItem_accepts_song h c song = Inr b"
    by auto
  show ?case
  proof (cases b)
    case True
    with c show ?thesis by auto
  next
    case False
    with c Cons show ?thesis by auto
  qed
qed

lemma FilterItem_accepts_song_total:
  assumes "finite (checked_children (h ! f))"
    and "\<forall>i \<in> checked_children (h ! f).
           \<exists>c b. tuple_getitem (children (h ! f)) i = Inr c \<and> VariantItem_accepts_song h c song = Inr b"
  shows "FilterItem_accepts_song h f song =
    Inr (checked_children (h ! f) = {} \<or>
         (\<exists>i \<in> checked_children (h ! f).
            \<exists>c. tuple_getitem (children (h ! f)) i = Inr c \<and>
                VariantItem_accepts_song h c song = Inr True))"
proof (cases "checked_children (h ! f) = {}")
  case True
  then show ?thesis by (simp add: FilterItem_accepts_song_def)
next
  case False
  have "set (sorted_list_of_set (checked_children (h ! f))) = checked_children (h ! f)"
    using assms(1) by simp
  with any_accepts_song_total [of "sorted_list_of_set (checked_children (h ! f))" "children (h ! f)" h song]
    assms(2) False
  show ?thesis by (simp add: FilterItem_accepts_song_def)
qed

lemma matches_song_concrete: "m \<noteq> SongMatch_interface \<Longrightarrow> \<exists>b. matches_song m song = Inr b"
  by (cases m) simp_all

lemma VariantItem_accepts_song_total:
  assumes "concrete_variants h" "v < length h" "cls (h ! v) = VariantItem"
  shows "\<exists>m b. data (h ! v) = MatchData m \<and> matches_song m song = Inr b \<and>
               VariantItem_accepts_song h v song = Inr b"
proof -
  from assms obtain m where m: "data (h ! v) = MatchData m" "m \<noteq> SongMatch_interface"
    by (auto simp: concrete_variants_def)
  from matches_song_concrete [OF m(2)] obtain b where "matches_song m song = Inr b" ..
  with m show ?thesis by (simp add: VariantItem_accepts_song_def)
qed

lemma checked_index_in_bounds:
  assumes "tree_inv h" "f < length h" "cls (h ! f) = FilterItem" "i \<in> checked_children (h ! f)"
  shows "0 \<le> i \<and> i < int (length (children (h ! f)))"
  using assms by (auto simp: tree_inv_def filter_consistent_def)

lemma checked_child_accepts:
  assumes wf: "tree_wf h" and inv: "tree_inv h" and cv: "concrete_variants h"
    and f: "f < length h" "cls (h ! f) = FilterItem" and i: "i \<in> checked_children (h ! f)"
  shows "\<exists>c b. tuple_getitem (children (h ! f)) i = Inr c \<and> VariantItem_accepts_song h c song = Inr b"
proof -
  from checked_index_in_bounds [OF inv f i]
  have b: "0 \<le> i" "i < int (length (children (h ! f)))" by simp_all
  then have "children (h ! f) ! nat i \<in> set (children (h ! f))"
    by simp
  from wf_filter_child [OF wf f this]
  have "children (h ! f) ! nat i < length h" "cls (h ! (children (h ! f) ! nat i)) = VariantItem"
    by simp_all
  from VariantItem_accepts_song_total [OF cv this, of song] b
  show ?thesis by (auto simp: tuple_getitem_in_range)
qed

lemma finite_checked_children:
  "tree_inv h \<Longrightarrow> f < length h \<Longrightarrow> cls (h ! f) = FilterItem \<Longrightarrow> finite (checked_children (h ! f))"
  by (simp add: tree_inv_def filter_consistent_def)

lemma toggle_checked_VariantItem:
  "cls (h ! v) = VariantItem \<Longrightarrow> toggle_checked h v = VariantItem_toggle_checked h v"
  by (simp add: toggle_checked_def)

lemma unconstrained_uncheck_children:
  assumes "f < length h" "set (children (h ! f)) \<subseteq> {..<length h}"
  shows "unconstrained (uncheck_children h f) f"
proof -
  have "\<not> checked (uncheck_children h f ! c)" if "c \<in> set (children (h ! f))" for c
  proof -
    from that assms(2) have "c < length h" by auto
    then show ?thesis using that by (simp add: nth_uncheck_children)
  qed
  then show ?thesis
    using assms(1) by (simp add: unconstrained_def nth_uncheck_children)
qed

lemma children_in_store:
  assumes "tree_wf h" "f < length h" "cls (h ! f) = FilterItem"
  shows "set (children (h ! f)) \<subseteq> {..<length h}"
  using wf_filter_child [OF assms] by auto

subsection \<open>The example trees\<close>

lemma example_tree_wf: "tree_wf example_tree"
  unfolding tree_wf_def
  by (auto simp: example_tree_def wf_filter_def wf_variant_def new_RootItem_def
        new_FilterItem_def new_VariantItem_def less_Suc_eq)

lemma example_tree_inv: "tree_inv example_tree"
  unfolding tree_inv_def
  by (auto simp: example_tree_def filter_consistent_def variant_consistent_def new_RootItem_def
        new_FilterItem_def new_VariantItem_def less_Suc_eq)

lemma example_tree_checked_wf: "tree_wf example_tree_checked"
  unfolding tree_wf_def
  by (auto simp: example_tree_checked_def wf_filter_def wf_variant_def new_RootItem_def
        new_FilterItem_def new_VariantItem_def less_Suc_eq)

lemma example_tree_checked_inv: "tree_inv example_tree_checked"
  unfolding tree_inv_def
  by (auto simp: example_tree_checked_def filter_consistent_def variant_consistent_def new_RootItem_def
        new_FilterItem_def new_VariantItem_def less_Suc_eq)

lemma example_tree_toggle: "toggle_checked example_tree 2 = Inr example_tree_checked"
  by (simp add: example_tree_def example_tree_checked_def toggle_checked_def
        VariantItem_toggle_checked_def check_child_def uncheck_children_def upd_def
        tuple_getitem_def new_RootItem_def new_FilterItem_def new_VariantItem_def Let_def)

lemma example_tree_toggle_back: "toggle_checked example_tree_checked 2 = Inr example_tree"
  by (simp add: example_tree_def example_tree_checked_def toggle_checked_def
        VariantItem_toggle_checked_def check_child_def uncheck_children_def upd_def
        tuple_getitem_def new_RootItem_def new_FilterItem_def new_VariantItem_def Let_def)

lemma example_tree_toggle_filter: "toggle_checked example_tree_checked 1 = Inr example_tree"
  by (simp add: example_tree_def example_tree_checked_def toggle_checked_def
        FilterItem_toggle_checked_def uncheck_children_def upd_def
        new_RootItem_def new_FilterItem_def new_VariantItem_def Let_def)

lemma after_check_facts:
  assumes wf: "tree_wf h" and v: "v < length h" "cls (h ! v) = VariantItem"
    and p: "parent (h ! v) = Some f"
    and len: "length h' = length h" and h': "\<forall>a < length h. h' ! a = after_check h f v a"
  shows "checked_children (h' ! f) = {row_in_parent (h ! v)}" "checked (h' ! f)"
    "checkable (h' ! f)" "checked (h' ! v)"
    "\<forall>c \<in> set (children (h ! f)). checked (h' ! c) \<longleftrightarrow> c = v"
proof -
  from wf v p have f: "f < length h" "cls (h ! f) = FilterItem"
    by (auto elim: wf_variantD)
  from f v have vf: "v \<noteq> f" by auto
  from h' f vf show "checked_children (h' ! f) = {row_in_parent (h ! v)}" "checked (h' ! f)"
    "checkable (h' ! f)"
    by (simp_all add: after_check_def)
  from h' v show "checked (h' ! v)"
    by (simp add: after_check_def)
  show "\<forall>c \<in> set (children (h ! f)). checked (h' ! c) \<longleftrightarrow> c = v"
  proof
    fix c assume c: "c \<in> set (children (h ! f))"
    from wf_filter_child [OF wf f c] have "c < length h" "cls (h ! c) = VariantItem"
      by simp_all
    with f have "c \<noteq> f" by auto
    with h' c \<open>c < length h\<close> show "checked (h' ! c) \<longleftrightarrow> c = v"
      by (simp add: after_check_def)
  qed
qed

section \<open>Sequences of toggles on a fresh tree\<close>

lemma list_all_take: "list_all P xs \<Longrightarrow> list_all P (take n xs)"
  by (auto simp: list_all_iff dest: in_set_takeD)

lemma reachable_state:
  assumes "tree_wf h0" "fresh h0" "list_all (\<lambda>a. a < length h0) ops"
  shows "\<exists>h. toggle_all h0 ops = Inr h \<and> same_shape h0 h \<and> tree_wf h \<and> tree_inv h"
proof -
  from toggle_all_steps [OF assms(1) fresh_tree_inv [OF assms(1,2)] assms(3)]
  obtain h where h: "toggle_all h0 ops = Inr h" "same_shape h0 h" "tree_inv h"
    by blast
  then show ?thesis
    using tree_wf_same_shape [OF h(2) assms(1)] by simp
qed

text \<open>
  C2: starting from a fresh well-formed tree (built by \<open>add_child\<close>, every filter item
  unconstrained), after every call of a sequence of \<open>toggle_checked\<close> calls on items of
  the tree (after every prefix \<open>take n ops\<close> of the sequence), the checkbox state is
  consistent (\<open>tree_inv\<close>): every filter item holds at most one checked index, its flags
  \<open>checked\<close> and \<open>checkable\<close> are true iff it holds one, and every variant item is
  checked iff its row is among the checked indices of its parent.
\<close>

theorem toggles_keep_single_selection:
  assumes "tree_wf h0" "fresh h0" "list_all (\<lambda>a. a < length h0) ops"
  shows "\<exists>h. toggle_all h0 (take n ops) = Inr h \<and> tree_inv h"
  using reachable_state [OF assms(1,2) list_all_take [OF assms(3)], of n] by blast

theorem toggles_keep_single_selection_witness:
  "tree_wf (build_tree (\<lambda>k. [])) \<and> fresh (build_tree (\<lambda>k. [])) \<and>
   list_all (\<lambda>a. a < length (build_tree (\<lambda>k. []))) [9, 10, 9, 8, 20, 0] \<and>
   (\<exists>h. toggle_all (build_tree (\<lambda>k. [])) (take 3 [9, 10, 9, 8, 20, 0]) = Inr h \<and> tree_inv h)"
proof -
  note b = build_tree_props [of "\<lambda>k. []"]
  have ops: "list_all (\<lambda>a. a < length (build_tree (\<lambda>k. []))) [9, 10, 9, 8, 20, 0]"
    using b by simp
  from b have wf: "tree_wf (build_tree (\<lambda>k. []))" and fr: "fresh (build_tree (\<lambda>k. []))"
    by simp_all
  from toggles_keep_single_selection [OF wf fr ops, of 3] wf fr ops show ?thesis
    by simp
qed

text \<open>
  C9: on every state that toggles reach from a fresh well-formed tree whose variant
  items carry predicates of the implementing classes, and for every song, no operation
  raises: toggling any item returns a store; every variant item carries a predicate
  whose \<open>matches_song\<close> returns a boolean, sits in the children of its parent at its
  \<open>row_in_parent\<close> (the subscript in \<open>check_child\<close> is in bounds), and
  \<open>check_child\<close> of its parent on its row returns; every filter item answers
  \<open>accepts_song\<close>, and every index in its \<open>checked_children\<close> is in bounds.
\<close>

theorem reachable_operations_never_raise:
  assumes "tree_wf h0" "fresh h0" "concrete_variants h0" "list_all (\<lambda>a. a < length h0) ops"
  shows "\<exists>h. toggle_all h0 ops = Inr h \<and>
     (\<forall>a < length h.
        (\<exists>h'. toggle_checked h a = Inr h') \<and>
        (cls (h ! a) = VariantItem \<longrightarrow>
           (\<exists>m b f h'. data (h ! a) = MatchData m \<and> matches_song m song = Inr b \<and>
              VariantItem_accepts_song h a song = Inr b \<and> parent (h ! a) = Some f \<and>
              tuple_getitem (children (h ! f)) (row_in_parent (h ! a)) = Inr a \<and>
              check_child h f (row_in_parent (h ! a)) = Inr h')) \<and>
        (cls (h ! a) = FilterItem \<longrightarrow>
           (\<exists>b. FilterItem_accepts_song h a song = Inr b) \<and>
           (\<forall>i \<in> checked_children (h ! a).
              0 \<le> i \<and> i < int (length (children (h ! a))) \<and>
              (\<exists>c. tuple_getitem (children (h ! a)) i = Inr c))))"
proof -
  from reachable_state [OF assms(1,2,4)] obtain h where h: "toggle_all h0 ops = Inr h"
    and ss: "same_shape h0 h" and wf: "tree_wf h" and inv: "tree_inv h"
    by blast
  have cv: "concrete_variants h"
    using ss assms(3) by (rule concrete_variants_same_shape)
  have "\<exists>h'. toggle_checked h a = Inr h'" if "a < length h" for a
    using toggle_checked_step [OF wf inv that] by blast
  moreover have "\<exists>m b f h'. data (h ! a) = MatchData m \<and> matches_song m song = Inr b \<and>
      VariantItem_accepts_song h a song = Inr b \<and> parent (h ! a) = Some f \<and>
      tuple_getitem (children (h ! f)) (row_in_parent (h ! a)) = Inr a \<and>
      check_child h f (row_in_parent (h ! a)) = Inr h'"
    if a: "a < length h" "cls (h ! a) = VariantItem" for a
  proof -
    from wf a obtain f where f: "parent (h ! a) = Some f" "f < length h" "cls (h ! f) = FilterItem"
      "0 \<le> row_in_parent (h ! a)" "nat (row_in_parent (h ! a)) < length (children (h ! f))"
      "children (h ! f) ! nat (row_in_parent (h ! a)) = a"
      by (auto elim: wf_variantD)
    from f(4,5) have r: "row_in_parent (h ! a) < int (length (children (h ! f)))"
      by linarith
    from f a have "a \<noteq> f" by auto
    with nth_check_child [OF f(4) r f(2)] f(6) a(1)
    obtain h' where "check_child h f (row_in_parent (h ! a)) = Inr h'"
      by auto
    moreover have "tuple_getitem (children (h ! f)) (row_in_parent (h ! a)) = Inr a"
      using f(4,6) r by (simp add: tuple_getitem_in_range)
    ultimately show ?thesis
      using VariantItem_accepts_song_total [OF cv a, of song] f(1) by auto
  qed
  moreover have "(\<exists>b. FilterItem_accepts_song h a song = Inr b) \<and>
      (\<forall>i \<in> checked_children (h ! a).
         0 \<le> i \<and> i < int (length (children (h ! a))) \<and>
         (\<exists>c. tuple_getitem (children (h ! a)) i = Inr c))"
    if a: "a < length h" "cls (h ! a) = FilterItem" for a
  proof -
    have "\<forall>i \<in> checked_children (h ! a).
        \<exists>c b. tuple_getitem (children (h ! a)) i = Inr c \<and> VariantItem_accepts_song h c song = Inr b"
      using checked_child_accepts [OF wf inv cv a] by blast
    from FilterItem_accepts_song_total [OF finite_checked_children [OF inv a] this]
    have "\<exists>b. FilterItem_accepts_song h a song = Inr b" by blast
    then show ?thesis
      using checked_index_in_bounds [OF inv a] by (auto simp: tuple_getitem_in_range)
  qed
  ultimately show ?thesis
    using h by blast
qed

theorem reachable_operations_never_raise_witness:
  "tree_wf (build_tree (\<lambda>k. if k = ARTIST then [''A'', ''B''] else [])) \<and>
   fresh (build_tree (\<lambda>k. if k = ARTIST then [''A'', ''B''] else [])) \<and>
   concrete_variants (build_tree (\<lambda>k. if k = ARTIST then [''A'', ''B''] else [])) \<and>
   list_all (\<lambda>a. a < length (build_tree (\<lambda>k. if k = ARTIST then [''A'', ''B''] else [])))
     [2, 3, 13, 1, 21] \<and>
   (\<exists>h. toggle_all (build_tree (\<lambda>k. if k = ARTIST then [''A'', ''B''] else [])) [2, 3, 13, 1, 21] = Inr h \<and>
     (\<forall>a < length h.
        (\<exists>h'. toggle_checked h a = Inr h') \<and>
        (cls (h ! a) = VariantItem \<longrightarrow>
           (\<exists>m b f h'. data (h ! a) = MatchData m \<and> matches_song m example_song = Inr b \<and>
              VariantItem_accepts_song h a example_song = Inr b \<and> parent (h ! a) = Some f \<and>
              tuple_getitem (children (h ! f)) (row_in_parent (h ! a)) = Inr a \<and>
              check_child h f (row_in_parent (h ! a)) = Inr h')) \<and>
        (cls (h ! a) = FilterItem \<longrightarrow>
           (\<exists>b. FilterItem_accepts_song h a example_song = Inr b) \<and>
           (\<forall>i \<in> checked_children (h ! a).
              0 \<le> i \<and> i < int (length (children (h ! a))) \<and>
              (\<exists>c. tuple_getitem (children (h ! a)) i = Inr c)))))"
proof -
  let ?p = "\<lambda>k. if k = ARTIST then [''A'', ''B''] else []"
  note b = build_tree_props [of ?p]
  have ops: "list_all (\<lambda>a. a < length (build_tree ?p)) [2, 3, 13, 1, 21]"
    using b by simp
  from b have wf: "tree_wf (build_tree ?p)" and fr: "fresh (build_tree ?p)"
    and cv: "concrete_variants (build_tree ?p)"
    by simp_all
  from reachable_operations_never_raise [OF wf fr cv ops, of example_song] wf fr cv ops
  show ?thesis
    by blast
qed

section \<open>Toggling a variant item\<close>

lemma checked_variant_toggle:
  assumes wf: "tree_wf h" and v: "v < length h" "cls (h ! v) = VariantItem"
    and u: "\<not> checked (h ! v)"
  shows "\<exists>f h'. parent (h ! v) = Some f \<and> f < length h \<and> cls (h ! f) = FilterItem \<and>
     v \<in> set (children (h ! f)) \<and>
     VariantItem_toggle_checked h v = Inr h' \<and> same_shape h h' \<and> tree_wf h' \<and>
     checked_children (h' ! f) = {row_in_parent (h ! v)} \<and> checked (h' ! f) \<and>
     checkable (h' ! f) \<and> checked (h' ! v) \<and>
     (\<forall>c \<in> set (children (h ! f)). checked (h' ! c) \<longleftrightarrow> c = v)"
proof -
  from wf v obtain f where f: "parent (h ! v) = Some f" "f < length h" "cls (h ! f) = FilterItem"
    "nat (row_in_parent (h ! v)) < length (children (h ! f))"
    "children (h ! f) ! nat (row_in_parent (h ! v)) = v"
    by (auto elim: wf_variantD)
  from f(4,5) have mem: "v \<in> set (children (h ! f))"
    by (metis nth_mem)
  from toggle_variant_unchecked [OF wf v f(1) u]
  obtain h' where h': "toggle_checked h v = Inr h'" "length h' = length h"
    "\<forall>a < length h. h' ! a = after_check h f v a"
    by blast
  have ss: "same_shape h h'"
    using h'(2,3) by (rule same_shape_after_check)
  show ?thesis
    using f(1-3) mem h'(1) ss tree_wf_same_shape [OF ss wf]
      after_check_facts [OF wf v f(1) h'(2,3)] toggle_checked_VariantItem [OF v(2)]
    by simp
qed

text \<open>
  C3: toggling an unchecked variant item \<open>v\<close> constrains its parent to \<open>v\<close> alone: the
  checked indices of the parent become exactly the row of \<open>v\<close>, the flags \<open>checked\<close>
  and \<open>checkable\<close> of the parent and the flag \<open>checked\<close> of \<open>v\<close> become true, and among
  the children of the parent \<open>v\<close> is the only checked one, so every sibling that was
  checked is unchecked. In particular, checking then another variant \<open>w\<close> of the same
  filter leaves \<open>w\<close> the only checked child, and \<open>v\<close> unchecked.
\<close>

theorem VariantItem_toggle_checked_selects_alone:
  assumes "tree_wf h" "v < length h" "cls (h ! v) = VariantItem" "\<not> checked (h ! v)"
  shows "\<exists>f h'. parent (h ! v) = Some f \<and> VariantItem_toggle_checked h v = Inr h' \<and>
     checked_children (h' ! f) = {row_in_parent (h ! v)} \<and> checked (h' ! f) \<and>
     checkable (h' ! f) \<and> checked (h' ! v) \<and>
     (\<forall>c \<in> set (children (h' ! f)). checked (h' ! c) \<longleftrightarrow> c = v) \<and>
     (\<forall>w < length h. cls (h ! w) = VariantItem \<and> parent (h ! w) = Some f \<and> w \<noteq> v \<longrightarrow>
        (\<exists>h''. VariantItem_toggle_checked h' w = Inr h'' \<and>
           checked_children (h'' ! f) = {row_in_parent (h ! w)} \<and> checked (h'' ! f) \<and>
           checkable (h'' ! f) \<and> checked (h'' ! w) \<and> \<not> checked (h'' ! v) \<and>
           (\<forall>c \<in> set (children (h'' ! f)). checked (h'' ! c) \<longleftrightarrow> c = w)))"
proof -
  from checked_variant_toggle [OF assms]
  obtain f h' where 1: "parent (h ! v) = Some f" "f < length h" "cls (h ! f) = FilterItem"
    "v \<in> set (children (h ! f))" "VariantItem_toggle_checked h v = Inr h'" "same_shape h h'"
    "tree_wf h'" "checked_children (h' ! f) = {row_in_parent (h ! v)}" "checked (h' ! f)"
    "checkable (h' ! f)" "checked (h' ! v)"
    "\<forall>c \<in> set (children (h ! f)). checked (h' ! c) \<longleftrightarrow> c = v"
    by blast
  have ch: "children (h' ! f) = children (h ! f)"
    using same_shape_fields(5) [OF 1(6) 1(2)] .
  have "\<exists>h''. VariantItem_toggle_checked h' w = Inr h'' \<and>
           checked_children (h'' ! f) = {row_in_parent (h ! w)} \<and> checked (h'' ! f) \<and>
           checkable (h'' ! f) \<and> checked (h'' ! w) \<and> \<not> checked (h'' ! v) \<and>
           (\<forall>c \<in> set (children (h'' ! f)). checked (h'' ! c) \<longleftrightarrow> c = w)"
    if w: "w < length h" "cls (h ! w) = VariantItem" "parent (h ! w) = Some f" "w \<noteq> v" for w
  proof -
    from assms(1) w(1,2) obtain g where g: "parent (h ! w) = Some g"
      "nat (row_in_parent (h ! w)) < length (children (h ! g))"
      "children (h ! g) ! nat (row_in_parent (h ! w)) = w"
      by (auto elim: wf_variantD)
    with w(3) have mem: "w \<in> set (children (h ! f))"
      by (metis nth_mem option.inject)
    have w': "w < length h'" "cls (h' ! w) = VariantItem" "parent (h' ! w) = Some f"
      "row_in_parent (h' ! w) = row_in_parent (h ! w)"
      using same_shape_fields [OF 1(6) w(1)] same_shape_length [OF 1(6)] w by simp_all
    have u: "\<not> checked (h' ! w)"
      using 1(12) mem w(4) by simp
    from checked_variant_toggle [OF 1(7) w'(1,2) u] w'(3,4)
    obtain h'' where 2: "VariantItem_toggle_checked h' w = Inr h''" "same_shape h' h''"
      "checked_children (h'' ! f) = {row_in_parent (h ! w)}" "checked (h'' ! f)"
      "checkable (h'' ! f)" "checked (h'' ! w)"
      "\<forall>c \<in> set (children (h' ! f)). checked (h'' ! c) \<longleftrightarrow> c = w"
      by auto
    have "children (h'' ! f) = children (h ! f)"
      using same_shape_fields(5) [OF 2(2), of f] same_shape_length [OF 1(6)] 1(2) ch by simp
    with 2 1(4) ch w(4) show ?thesis
      by auto
  qed
  with 1 ch show ?thesis
    by auto
qed

theorem VariantItem_toggle_checked_selects_alone_witness:
  "tree_wf example_tree_checked \<and> (3::nat) < length example_tree_checked \<and>
   cls (example_tree_checked ! 3) = VariantItem \<and> \<not> checked (example_tree_checked ! 3) \<and>
   (\<exists>f h'. parent (example_tree_checked ! 3) = Some f \<and>
      VariantItem_toggle_checked example_tree_checked 3 = Inr h' \<and>
      checked_children (h' ! f) = {row_in_parent (example_tree_checked ! 3)} \<and> checked (h' ! f) \<and>
      checkable (h' ! f) \<and> checked (h' ! 3) \<and>
      (\<forall>c \<in> set (children (h' ! f)). checked (h' ! c) \<longleftrightarrow> c = 3) \<and>
      (\<forall>w < length example_tree_checked.
         cls (example_tree_checked ! w) = VariantItem \<and> parent (example_tree_checked ! w) = Some f \<and>
         w \<noteq> 3 \<longrightarrow>
         (\<exists>h''. VariantItem_toggle_checked h' w = Inr h'' \<and>
            checked_children (h'' ! f) = {row_in_parent (example_tree_checked ! w)} \<and>
            checked (h'' ! f) \<and> checkable (h'' ! f) \<and> checked (h'' ! w) \<and> \<not> checked (h'' ! 3) \<and>
            (\<forall>c \<in> set (children (h'' ! f)). checked (h'' ! c) \<longleftrightarrow> c = w))))"
proof -
  have a: "(3::nat) < length example_tree_checked" "cls (example_tree_checked ! 3) = VariantItem"
    "\<not> checked (example_tree_checked ! 3)"
    by (simp_all add: example_tree_checked_def new_VariantItem_def)
  from VariantItem_toggle_checked_selects_alone [OF example_tree_checked_wf a] a
    example_tree_checked_wf
  show ?thesis by blast
qed

text \<open>
  C4: checking a variant item (toggling it while it is unchecked) and toggling it again
  leaves its parent unconstrained: no checked index, the flags \<open>checked\<close> and
  \<open>checkable\<close> of the filter item false, and every child unchecked.
\<close>

theorem check_then_toggle_again_unconstrained:
  assumes "tree_wf h" "v < length h" "cls (h ! v) = VariantItem" "\<not> checked (h ! v)"
  shows "\<exists>f h1 h2. parent (h ! v) = Some f \<and> VariantItem_toggle_checked h v = Inr h1 \<and>
     checked (h1 ! v) \<and> VariantItem_toggle_checked h1 v = Inr h2 \<and>
     unconstrained h2 f \<and> children (h2 ! f) = children (h ! f)"
proof -
  from checked_variant_toggle [OF assms]
  obtain f h1 where 1: "parent (h ! v) = Some f" "f < length h" "cls (h ! f) = FilterItem"
    "VariantItem_toggle_checked h v = Inr h1" "same_shape h h1" "tree_wf h1" "checked (h1 ! v)"
    by blast
  have f1: "f < length h1" "cls (h1 ! f) = FilterItem"
    using same_shape_fields(1) [OF 1(5) 1(2)] same_shape_length [OF 1(5)] 1(2,3) by simp_all
  have v1: "cls (h1 ! v) = VariantItem" "parent (h1 ! v) = Some f"
    using same_shape_fields [OF 1(5) assms(2)] assms(3) 1(1) by simp_all
  have t: "VariantItem_toggle_checked h1 v = Inr (uncheck_children h1 f)"
    using toggle_variant_checked [OF v1 f1(2) 1(7)] toggle_checked_VariantItem [OF v1(1)] by simp
  have "unconstrained (uncheck_children h1 f) f"
    using f1(1) children_in_store [OF 1(6) f1] by (rule unconstrained_uncheck_children)
  moreover have "children (uncheck_children h1 f ! f) = children (h ! f)"
    using f1(1) same_shape_fields(5) [OF 1(5) 1(2)] by (simp add: nth_uncheck_children)
  ultimately show ?thesis
    using 1(1,4,7) t by blast
qed

theorem check_then_toggle_again_unconstrained_witness:
  "tree_wf example_tree \<and> (2::nat) < length example_tree \<and>
   cls (example_tree ! 2) = VariantItem \<and> \<not> checked (example_tree ! 2) \<and>
   (\<exists>f h1 h2. parent (example_tree ! 2) = Some f \<and>
      VariantItem_toggle_checked example_tree 2 = Inr h1 \<and> checked (h1 ! 2) \<and>
      VariantItem_toggle_checked h1 2 = Inr h2 \<and> unconstrained h2 f \<and>
      children (h2 ! f) = children (example_tree ! f))"
proof -
  have a: "(2::nat) < length example_tree" "cls (example_tree ! 2) = VariantItem"
    "\<not> checked (example_tree ! 2)"
    by (simp_all add: example_tree_def new_VariantItem_def)
  from check_then_toggle_again_unconstrained [OF example_tree_wf a] a example_tree_wf
  show ?thesis by blast
qed

section \<open>Toggling a filter item, and accepting a song\<close>

lemma sole_checked_index:
  assumes "filter_consistent x" "checked_children x \<noteq> {}"
  shows "\<exists>i. checked_children x = {i} \<and> 0 \<le> i \<and> i < int (length (children x)) \<and> checked x"
proof -
  from assms have "card (checked_children x) = 1"
    by (simp add: filter_consistent_def card_gt_0_iff Suc_leI le_antisym)
  then obtain i where "checked_children x = {i}"
    by (rule card_1_singletonE)
  with assms show ?thesis
    by (auto simp: filter_consistent_def)
qed

text \<open>
  C5: on a consistent tree, toggling a constrained filter item has the effect of
  toggling its sole checked variant, and leaves the filter item unconstrained; toggling
  an unconstrained filter item leaves the store as it is.
\<close>

theorem FilterItem_toggle_checked_unconstrains:
  assumes "tree_wf h" "tree_inv h" "f < length h" "cls (h ! f) = FilterItem"
  shows "(checked_children (h ! f) \<noteq> {} \<longrightarrow>
            (\<exists>i v. checked_children (h ! f) = {i} \<and>
               tuple_getitem (children (h ! f)) i = Inr v \<and> checked (h ! v) \<and>
               VariantItem_toggle_checked h v = Inr (FilterItem_toggle_checked h f)) \<and>
            unconstrained (FilterItem_toggle_checked h f) f) \<and>
         (checked_children (h ! f) = {} \<longrightarrow> FilterItem_toggle_checked h f = h)"
proof (intro conjI impI)
  from assms(2-4) have fc: "filter_consistent (h ! f)"
    by (simp add: tree_inv_def)
  {
    assume ne: "checked_children (h ! f) \<noteq> {}"
    from sole_checked_index [OF fc ne] obtain i where i: "checked_children (h ! f) = {i}"
      "0 \<le> i" "i < int (length (children (h ! f)))" "checked (h ! f)"
      by blast
    let ?v = "children (h ! f) ! nat i"
    have t: "FilterItem_toggle_checked h f = uncheck_children h f"
      using i(4) by (simp add: FilterItem_toggle_checked_def)
    from i(2,3) have "?v \<in> set (children (h ! f))" by simp
    from wf_filter_child [OF assms(1,3,4) this]
    have v: "?v < length h" "cls (h ! ?v) = VariantItem" "parent (h ! ?v) = Some f"
      by simp_all
    from assms(1,3,4) have "wf_filter h f" by (simp add: tree_wf_def)
    with i(2,3) have row: "row_in_parent (h ! ?v) = i"
      by (simp add: wf_filter_def)
    from assms(2) v(1,2) have "variant_consistent h (h ! ?v)"
      by (simp add: tree_inv_def)
    with v(3) row i(1) have cv: "checked (h ! ?v)"
      by (simp add: variant_consistent_def)
    have "VariantItem_toggle_checked h ?v = Inr (FilterItem_toggle_checked h f)"
      using toggle_variant_checked [OF v(2,3) assms(4) cv] toggle_checked_VariantItem [OF v(2)] t
      by simp
    with i cv show "\<exists>i v. checked_children (h ! f) = {i} \<and>
               tuple_getitem (children (h ! f)) i = Inr v \<and> checked (h ! v) \<and>
               VariantItem_toggle_checked h v = Inr (FilterItem_toggle_checked h f)"
      by (auto simp: tuple_getitem_in_range)
    show "unconstrained (FilterItem_toggle_checked h f) f"
      unfolding t using assms(3) children_in_store [OF assms(1,3,4)]
      by (rule unconstrained_uncheck_children)
  }
  {
    assume "checked_children (h ! f) = {}"
    with fc show "FilterItem_toggle_checked h f = h"
      by (simp add: FilterItem_toggle_checked_def filter_consistent_def)
  }
qed

theorem FilterItem_toggle_checked_unconstrains_witness:
  "tree_wf example_tree_checked \<and> tree_inv example_tree_checked \<and>
   (1::nat) < length example_tree_checked \<and> cls (example_tree_checked ! 1) = FilterItem \<and>
   checked_children (example_tree_checked ! 1) \<noteq> {} \<and>
   (\<exists>i v. checked_children (example_tree_checked ! 1) = {i} \<and>
      tuple_getitem (children (example_tree_checked ! 1)) i = Inr v \<and>
      checked (example_tree_checked ! v) \<and>
      VariantItem_toggle_checked example_tree_checked v =
        Inr (FilterItem_toggle_checked example_tree_checked 1)) \<and>
   unconstrained (FilterItem_toggle_checked example_tree_checked 1) 1"
proof -
  have a: "(1::nat) < length example_tree_checked" "cls (example_tree_checked ! 1) = FilterItem"
    "checked_children (example_tree_checked ! 1) \<noteq> {}"
    by (simp_all add: example_tree_checked_def new_FilterItem_def)
  from FilterItem_toggle_checked_unconstrains [OF example_tree_checked_wf example_tree_checked_inv a(1,2)]
    a example_tree_checked_wf example_tree_checked_inv
  show ?thesis by blast
qed

text \<open>
  C7: when every checked index of a filter item subscripts its children and the
  predicate of the child returns (no exception on the way), \<open>accepts_song\<close> is true iff
  no index is checked or the predicate of some child at a checked index matches the
  song. Consequently, when no filter item of the store holds a checked index, every
  filter item accepts every song.
\<close>

theorem FilterItem_accepts_song_iff:
  assumes "finite (checked_children (h ! f))"
    and "\<forall>i \<in> checked_children (h ! f).
           \<exists>c b. tuple_getitem (children (h ! f)) i = Inr c \<and> VariantItem_accepts_song h c song = Inr b"
  shows "FilterItem_accepts_song h f song =
           Inr (checked_children (h ! f) = {} \<or>
                (\<exists>i \<in> checked_children (h ! f).
                   \<exists>c m. tuple_getitem (children (h ! f)) i = Inr c \<and>
                     data (h ! c) = MatchData m \<and> matches_song m song = Inr True)) \<and>
         ((\<forall>g < length h'. cls (h' ! g) = FilterItem \<longrightarrow> checked_children (h' ! g) = {}) \<longrightarrow>
          (\<forall>g < length h'. cls (h' ! g) = FilterItem \<longrightarrow>
             FilterItem_accepts_song h' g song' = Inr True))"
proof -
  have "VariantItem_accepts_song h c song = Inr True \<longleftrightarrow>
      (\<exists>m. data (h ! c) = MatchData m \<and> matches_song m song = Inr True)" for c
    by (cases "data (h ! c)") (simp_all add: VariantItem_accepts_song_def)
  with FilterItem_accepts_song_total [OF assms] show ?thesis
    by (simp add: FilterItem_accepts_song_def)
qed

theorem FilterItem_accepts_song_iff_witness:
  "finite (checked_children (example_tree_checked ! 1)) \<and>
   FilterItem_accepts_song example_tree_checked 1 example_song =
     Inr (checked_children (example_tree_checked ! 1) = {} \<or>
          (\<exists>i \<in> checked_children (example_tree_checked ! 1).
             \<exists>c m. tuple_getitem (children (example_tree_checked ! 1)) i = Inr c \<and>
               data (example_tree_checked ! c) = MatchData m \<and>
               matches_song m example_song = Inr True)) \<and>
   FilterItem_accepts_song example_tree_checked 1 example_song = Inr True \<and>
   FilterItem_accepts_song example_tree 1 example_song = Inr True \<and>
   FilterItem_accepts_song example_tree 4 example_song = Inr True"
proof -
  have cc: "checked_children (example_tree_checked ! 1) = {0}"
    "children (example_tree_checked ! 1) = [2, 3]"
    "data (example_tree_checked ! 2) = MatchData (Rating R_1)"
    by (simp_all add: example_tree_checked_def new_FilterItem_def new_VariantItem_def)
  have 1: "finite (checked_children (example_tree_checked ! 1))"
    unfolding cc by simp
  have 2: "\<forall>i \<in> checked_children (example_tree_checked ! 1).
      \<exists>c b. tuple_getitem (children (example_tree_checked ! 1)) i = Inr c \<and>
        VariantItem_accepts_song example_tree_checked c example_song = Inr b"
    unfolding cc using cc(3) by (simp add: tuple_getitem_def VariantItem_accepts_song_def)
  have 3: "\<forall>g < length example_tree. cls (example_tree ! g) = FilterItem \<longrightarrow>
      checked_children (example_tree ! g) = {}"
    by (auto simp: example_tree_def new_RootItem_def new_FilterItem_def new_VariantItem_def
        less_Suc_eq)
  have 4: "(1::nat) < length example_tree" "cls (example_tree ! 1) = FilterItem"
    "(4::nat) < length example_tree" "cls (example_tree ! 4) = FilterItem"
    by (simp_all add: example_tree_def new_FilterItem_def)
  have 5: "matches_song (Rating R_1) example_song = Inr True"
    by (simp add: RatingVariant_matches_song_def example_song_def)
  note t = FilterItem_accepts_song_iff [OF 1 2, of example_tree example_song]
  from t have a: "FilterItem_accepts_song example_tree_checked 1 example_song =
     Inr (checked_children (example_tree_checked ! 1) = {} \<or>
          (\<exists>i \<in> checked_children (example_tree_checked ! 1).
             \<exists>c m. tuple_getitem (children (example_tree_checked ! 1)) i = Inr c \<and>
               data (example_tree_checked ! c) = MatchData m \<and>
               matches_song m example_song = Inr True))"
    by blast
  moreover have "FilterItem_accepts_song example_tree_checked 1 example_song = Inr True"
    unfolding a cc using 5 cc(3) by (simp add: tuple_getitem_def)
  moreover from t 3 4 have "FilterItem_accepts_song example_tree 1 example_song = Inr True"
    "FilterItem_accepts_song example_tree 4 example_song = Inr True"
    by blast+
  ultimately show ?thesis
    using 1 by blast
qed

section \<open>What a toggle leaves unchanged\<close>

lemma uncheck_children_frame:
  "a < length h \<Longrightarrow> a \<noteq> f \<Longrightarrow> a \<notin> set (children (h ! f)) \<Longrightarrow> uncheck_children h f ! a = h ! a"
  by (simp add: nth_uncheck_children)

lemma VariantItem_accepts_song_st_store:
  "VariantItem_accepts_song_st h c song = (VariantItem_accepts_song h c song, h)"
  by (simp add: VariantItem_accepts_song_st_def VariantItem_accepts_song_def matches_song_st_def
      split: item_data.splits)

lemma any_accepts_song_st_store:
  "any_accepts_song_st h self song is = (any_accepts_song h (children (h ! self)) song is, h)"
proof (induction "is")
  case Nil
  show ?case by simp
next
  case (Cons i "is")
  show ?case
  proof (cases "tuple_getitem (children (h ! self)) i")
    case (Inl e)
    then show ?thesis by simp
  next
    case (Inr c)
    show ?thesis
    proof (cases "VariantItem_accepts_song h c song")
      case (Inl e)
      with Inr show ?thesis by (simp add: VariantItem_accepts_song_st_store)
    next
      case b: (Inr b)
      with Inr Cons.IH show ?thesis by (simp add: VariantItem_accepts_song_st_store)
    qed
  qed
qed

lemma FilterItem_accepts_song_st_store:
  "FilterItem_accepts_song_st h f song = (FilterItem_accepts_song h f song, h)"
  by (simp add: FilterItem_accepts_song_st_def FilterItem_accepts_song_def
      any_accepts_song_st_store)

text \<open>
  C8: a toggle leaves the shape of the tree as it is (\<open>same_shape\<close>: the number of
  objects and, for every object, its class, its data, its parent, its
  \<open>row_in_parent\<close> and its children), so that only \<open>checked\<close>, \<open>checkable\<close> and
  \<open>checked_children\<close> can differ; and every object outside the subtree of the target
  filter item (the receiver itself, or the parent of the receiving variant item) is left
  exactly as it was. The root's toggle changes nothing. And \<open>accepts_song\<close>, of a
  filter item and of a variant item, on any store \<open>s\<close> and whatever its answer or
  exception, leaves the store it was called on: threaded through every call of the
  generator, the store comes back as \<open>s\<close>, with the answer of the function on \<open>s\<close>.
\<close>

theorem toggle_checked_frame:
  assumes "tree_wf h" "t < length h"
  shows "(\<exists>h'. toggle_checked h t = Inr h' \<and> same_shape h h' \<and>
     (cls (h ! t) = RootItem \<longrightarrow> h' = h) \<and>
     (cls (h ! t) = FilterItem \<longrightarrow>
        (\<forall>a < length h. a \<noteq> t \<and> a \<notin> set (children (h ! t)) \<longrightarrow> h' ! a = h ! a)) \<and>
     (cls (h ! t) = VariantItem \<longrightarrow>
        (\<exists>f. parent (h ! t) = Some f \<and> cls (h ! f) = FilterItem \<and> t \<in> set (children (h ! f)) \<and>
           (\<forall>a < length h. a \<noteq> f \<and> a \<notin> set (children (h ! f)) \<longrightarrow> h' ! a = h ! a)))) \<and>
     snd (FilterItem_accepts_song_st s g song) = s \<and>
     fst (FilterItem_accepts_song_st s g song) = FilterItem_accepts_song s g song \<and>
     snd (VariantItem_accepts_song_st s c song) = s \<and>
     fst (VariantItem_accepts_song_st s c song) = VariantItem_accepts_song s c song"
proof -
  have "\<exists>h'. toggle_checked h t = Inr h' \<and> same_shape h h' \<and>
     (cls (h ! t) = RootItem \<longrightarrow> h' = h) \<and>
     (cls (h ! t) = FilterItem \<longrightarrow>
        (\<forall>a < length h. a \<noteq> t \<and> a \<notin> set (children (h ! t)) \<longrightarrow> h' ! a = h ! a)) \<and>
     (cls (h ! t) = VariantItem \<longrightarrow>
        (\<exists>f. parent (h ! t) = Some f \<and> cls (h ! f) = FilterItem \<and> t \<in> set (children (h ! f)) \<and>
           (\<forall>a < length h. a \<noteq> f \<and> a \<notin> set (children (h ! f)) \<longrightarrow> h' ! a = h ! a)))"
  proof (cases "cls (h ! t)")
    case RootItem
    then show ?thesis
      by (simp add: toggle_root same_shape_refl)
  next
    case FilterItem
    then show ?thesis
      by (simp add: toggle_filter same_shape_refl same_shape_uncheck_children
          uncheck_children_frame)
  next
    case VariantItem
    with assms obtain f where f: "parent (h ! t) = Some f" "f < length h" "cls (h ! f) = FilterItem"
      "nat (row_in_parent (h ! t)) < length (children (h ! f))"
      "children (h ! f) ! nat (row_in_parent (h ! t)) = t"
      by (auto elim: wf_variantD)
    from f(4,5) have mem: "t \<in> set (children (h ! f))"
      by (metis nth_mem)
    show ?thesis
    proof (cases "checked (h ! t)")
      case True
      then show ?thesis
        using VariantItem f(1,3) mem
        by (simp add: toggle_variant_checked same_shape_uncheck_children uncheck_children_frame)
    next
      case False
      from toggle_variant_unchecked [OF assms VariantItem f(1) False]
      obtain h' where h': "toggle_checked h t = Inr h'" "length h' = length h"
        "\<forall>a < length h. h' ! a = after_check h f t a"
        by blast
      have "h' ! a = h ! a" if "a < length h" "a \<noteq> f" "a \<notin> set (children (h ! f))" for a
      proof -
        from that(3) mem have "a \<noteq> t" by auto
        with h'(3) that show ?thesis by (simp add: after_check_def)
      qed
      then show ?thesis
        using VariantItem f(1,3) mem h'(1) same_shape_after_check [OF h'(2,3)] by simp
    qed
  qed
  then show ?thesis
    by (simp add: FilterItem_accepts_song_st_store VariantItem_accepts_song_st_store)
qed

theorem toggle_checked_frame_witness:
  "tree_wf example_tree_checked \<and> (3::nat) < length example_tree_checked \<and>
   (\<exists>h'. toggle_checked example_tree_checked 3 = Inr h' \<and> same_shape example_tree_checked h' \<and>
      cls (example_tree_checked ! 3) = VariantItem \<and>
      (\<exists>f. parent (example_tree_checked ! 3) = Some f \<and> cls (example_tree_checked ! f) = FilterItem \<and>
         3 \<in> set (children (example_tree_checked ! f)) \<and>
         (\<forall>a < length example_tree_checked.
            a \<noteq> f \<and> a \<notin> set (children (example_tree_checked ! f)) \<longrightarrow>
            h' ! a = example_tree_checked ! a))) \<and>
   snd (FilterItem_accepts_song_st example_tree_checked 1 example_song) = example_tree_checked \<and>
   fst (FilterItem_accepts_song_st example_tree_checked 1 example_song) =
     FilterItem_accepts_song example_tree_checked 1 example_song \<and>
   snd (VariantItem_accepts_song_st example_tree_checked 2 example_song) = example_tree_checked \<and>
   fst (VariantItem_accepts_song_st example_tree_checked 2 example_song) =
     VariantItem_accepts_song example_tree_checked 2 example_song"
proof -
  have a: "(3::nat) < length example_tree_checked" "cls (example_tree_checked ! 3) = VariantItem"
    by (simp_all add: example_tree_checked_def new_VariantItem_def)
  from toggle_checked_frame [OF example_tree_checked_wf a(1),
      of example_tree_checked 1 example_song 2]
    a example_tree_checked_wf
  show ?thesis by auto
qed

end
